theory Spec2Isabelle
  imports Complex_Main
begin

section \<open>Replay buffers of \<open>src/buffer.py\<close>\<close>

text \<open>
  The theory embeds the four classes of \<open>buffer.py\<close>: \<open>ReplayBuffer\<close>,
  \<open>PrioritizedReplayBuffer\<close>, \<open>SumTree\<close> and \<open>PERBufferSumTree\<close>.

  Conventions of the embedding.
  \<^item> Floating-point numbers (\<open>float32\<close> arrays, Python floats) are real numbers: every
    statement below is about exact arithmetic.
  \<^item> A transition is a value of a type variable \<open>'a\<close>: the five parallel arrays of
    \<open>ReplayBuffer\<close> are always written at the same indices in one operation, so they are
    one list of transitions, each as it is stored (after the casts of the assignment).
  \<^item> An exception is a value of type \<open>error\<close>; a function that can raise returns
    \<open>error + 'a\<close>.
  \<^item> \<open>NonFinite\<close> is no exception of Python: it marks a call in which a value is
    \<open>inf\<close> or \<open>nan\<close>, which real numbers do not represent.
  \<^item> \<open>_propagate\<close> recurses without a bound when it is started at an index \<open>\<le> 0\<close>
    (CPython stops it with \<open>RecursionError\<close>). It is a partial function into
    \<open>option\<close>: \<open>None\<close> is "the call never returns".
\<close>

subsection \<open>Errors and numpy indexing\<close>

datatype error =
  IndexError | ValueError | TypeError | AssertionError | ZeroDivisionError | NonFinite

text \<open>
  Indexing a one-dimensional numpy array of length \<open>n\<close> with an integer \<open>i\<close>: indices
  \<open>0 \<le> i < n\<close> are read as they are, indices \<open>- n \<le> i < 0\<close> count from the end, every
  other index raises \<open>IndexError\<close> (here \<open>None\<close>).
\<close>

definition np_index :: "nat \<Rightarrow> int \<Rightarrow> nat option" where
  "np_index n i =
     (if 0 \<le> i \<and> i < int n then Some (nat i)
      else if - int n \<le> i \<and> i < 0 then Some (nat (int n + i))
      else None)"

subsection \<open>SumTree\<close>

text \<open>
  \<^verbatim>\<open>
  def _propagate(self, idx, change):
      parent = (idx - 1) // 2
      self.tree[parent] += change
      if parent != 0:
          self._propagate(parent, change)
  \<close>
  Python's \<open>//\<close> rounds towards minus infinity, as \<open>div\<close> on \<open>int\<close> does.
\<close>

partial_function (option) propagate :: "int \<Rightarrow> real \<Rightarrow> real list \<Rightarrow> (error + real list) option" where
  "propagate idx change tree =
     (let parent = (idx - 1) div 2 in
      case np_index (length tree) parent of
        None \<Rightarrow> Some (Inl IndexError)
      | Some j \<Rightarrow>
          (let tree' = tree[j := tree ! j + change] in
           if parent \<noteq> 0 then propagate parent change tree' else Some (Inr tree')))"

record 'a SumTree =
  capacity_t :: nat
  tree :: "real list"
  data :: "'a option list"
  write_t :: nat
  n_entries :: nat

text \<open>
  \<open>SumTree(capacity)\<close>: \<open>np.zeros(2 * capacity - 1)\<close> raises \<open>ValueError\<close> for capacity 0
  (a negative dimension).
\<close>

definition SumTree_init :: "nat \<Rightarrow> error + 'a SumTree" where
  "SumTree_init c =
     (if c = 0 then Inl ValueError
      else Inr \<lparr>capacity_t = c, tree = replicate (2 * c - 1) 0,
                data = replicate c None, write_t = 0, n_entries = 0\<rparr>)"

text \<open>
  \<^verbatim>\<open>
  def update(self, idx, p):
      change = p - self.tree[idx]
      self.tree[idx] = p
      self._propagate(idx, change)
  \<close>
\<close>

definition update :: "int \<Rightarrow> real \<Rightarrow> 'a SumTree \<Rightarrow> (error + 'a SumTree) option" where
  "update idx p s =
     (case np_index (length (tree s)) idx of
        None \<Rightarrow> Some (Inl IndexError)
      | Some j \<Rightarrow>
          (let change = p - tree s ! j;
               tree1 = (tree s)[j := p]
           in case propagate idx change tree1 of
                None \<Rightarrow> None
              | Some (Inl e) \<Rightarrow> Some (Inl e)
              | Some (Inr t) \<Rightarrow> Some (Inr (s\<lparr>tree := t\<rparr>))))"

text \<open>A sequence of \<open>update\<close> calls, stopped by the first call that does not return.\<close>

fun update_seq :: "(int \<times> real) list \<Rightarrow> 'a SumTree \<Rightarrow> (error + 'a SumTree) option" where
  "update_seq [] s = Some (Inr s)"
| "update_seq ((idx, p) # us) s =
     (case update idx p s of
        None \<Rightarrow> None
      | Some (Inl e) \<Rightarrow> Some (Inl e)
      | Some (Inr s') \<Rightarrow> update_seq us s')"

text \<open>\<open>total\<close> returns the root.\<close>

definition total :: "'a SumTree \<Rightarrow> real" where
  "total s = tree s ! 0"

text \<open>
  The invariant of the tree, for capacity \<open>n\<close>: the array has \<open>2 n - 1\<close> nodes and every
  internal node \<open>i < n - 1\<close> holds the sum of its children \<open>2 i + 1\<close> and \<open>2 i + 2\<close>.
\<close>

definition sum_inv :: "nat \<Rightarrow> real list \<Rightarrow> bool" where
  "sum_inv n t = (length t = 2 * n - 1 \<and> (\<forall>i < n - 1. t ! i = t ! (2 * i + 1) + t ! (2 * i + 2)))"

text \<open>The sum of the leaves, the nodes \<open>n - 1 .. 2 n - 2\<close>.\<close>

definition leaf_sum :: "nat \<Rightarrow> real list \<Rightarrow> real" where
  "leaf_sum n t = (\<Sum>j = n - 1 ..< 2 * n - 1. t ! j)"


text \<open>
  \<^verbatim>\<open>
  def _retrieve(self, idx, s):
      left = 2 * idx + 1
      right = left + 1
      if left >= len(self.tree):
          return idx
      if s <= self.tree[left]:
          return self._retrieve(left, s)
      else:
          return self._retrieve(right, s - self.tree[left])
  \<close>
  The only call starts at the root, index 0, and the recursion goes to larger indices:
  the index is a natural number.
\<close>

function retrieve :: "real list \<Rightarrow> nat \<Rightarrow> real \<Rightarrow> nat" where
  "retrieve t idx s =
     (let left = 2 * idx + 1; right = left + 1 in
      if left \<ge> length t then idx
      else if s \<le> t ! left then retrieve t left s
      else retrieve t right (s - t ! left))"
  by pat_completeness auto
termination
  by (relation "measure (\<lambda>(t, idx, s). length t - idx)") auto

declare retrieve.simps [simp del]

text \<open>
  \<^verbatim>\<open>
  def get(self, s):
      idx = self._retrieve(0, s)
      data_idx = idx - self.capacity + 1
      return idx, self.tree[idx], self.data[data_idx]
  \<close>
  \<open>self.data\<close> is a Python list: its indexing wraps negative indices as numpy's does.
\<close>

definition get :: "'a SumTree \<Rightarrow> real \<Rightarrow> error + (nat \<times> real \<times> 'a option)" where
  "get s x =
     (let idx = retrieve (tree s) 0 x;
          data_idx = int idx - int (capacity_t s) + 1
      in if idx \<ge> length (tree s) then Inl IndexError
         else case np_index (length (data s)) data_idx of
                None \<Rightarrow> Inl IndexError
              | Some j \<Rightarrow> Inr (idx, tree s ! idx, data s ! j))"

text \<open>
  \<^verbatim>\<open>
  def add(self, p, data):
      idx = self.write + self.capacity - 1
      self.data[self.write] = data
      self.update(idx, p)
      self.write = (self.write + 1) % self.capacity
      self.n_entries = min(self.n_entries + 1, self.capacity)
  \<close>
\<close>

definition add :: "real \<Rightarrow> 'a \<Rightarrow> 'a SumTree \<Rightarrow> (error + 'a SumTree) option" where
  "add p d s =
     (let idx = int (write_t s) + int (capacity_t s) - 1 in
      if write_t s \<ge> length (data s) then Some (Inl IndexError)
      else case update idx p (s\<lparr>data := (data s)[write_t s := Some d]\<rparr>) of
             None \<Rightarrow> None
           | Some (Inl e) \<Rightarrow> Some (Inl e)
           | Some (Inr s') \<Rightarrow>
               if capacity_t s = 0 then Some (Inl ZeroDivisionError)
               else Some (Inr (s'\<lparr>write_t := (write_t s + 1) mod capacity_t s,
                                   n_entries := min (n_entries s + 1) (capacity_t s)\<rparr>)))"

subsection \<open>Powers\<close>

text \<open>
  \<open>x ** a\<close> on floats, where its value is a real number: \<open>0 ** 0 = 1\<close>, \<open>0 ** a = 0\<close>
  for \<open>a > 0\<close>, and a negative base has a power for an integral exponent only. \<open>None\<close>
  is \<open>inf\<close> (\<open>0 ** a\<close> for \<open>a < 0\<close>) or \<open>nan\<close>.
\<close>

definition np_pow :: "real \<Rightarrow> real \<Rightarrow> real option" where
  "np_pow x a =
     (if 0 < x then Some (x powr a)
      else if x = 0 then (if 0 < a then Some 0 else if a = 0 then Some 1 else None)
      else if a = of_int \<lfloor>a\<rfloor> then Some ((if even \<lfloor>a\<rfloor> then 1 else - 1) * (\<bar>x\<bar> powr a))
      else None)"

subsection \<open>ReplayBuffer\<close>

record 'a ReplayBuffer =
  capacity :: nat
  slots :: "'a list"
  position :: nat
  size_b :: nat

text \<open>\<open>ReplayBuffer(capacity)\<close>; \<open>z\<close> is the transition of the zero-filled arrays.\<close>

definition ReplayBuffer_init :: "nat \<Rightarrow> 'a \<Rightarrow> 'a ReplayBuffer" where
  "ReplayBuffer_init c z = \<lparr>capacity = c, slots = replicate c z, position = 0, size_b = 0\<rparr>"

text \<open>\<open>(np.arange(batch_size) + start) % capacity\<close>, for a positive capacity.\<close>

definition push_indices :: "nat \<Rightarrow> nat \<Rightarrow> nat \<Rightarrow> nat list" where
  "push_indices batch_size start c = map (\<lambda>k. (k + start) mod c) [0..<batch_size]"

text \<open>
  \<open>arr[idx] = values\<close> with an index array: the values are written in order, so the
  last one written to a repeated index stays.
\<close>

definition assign :: "'a list \<Rightarrow> nat list \<Rightarrow> 'a list \<Rightarrow> 'a list" where
  "assign arr idx vs = fold (\<lambda>(i, v) a. a[i := v]) (zip idx vs) arr"

text \<open>
  \<^verbatim>\<open>
  def push(self, state, action, reward, next_state, done):
      if state.ndim == 3: ...                      # one transition: a batch of one
      batch_size = state.shape[0]
      idx = (np.arange(batch_size) + self.position) % self.capacity
      self.states[idx] = state.astype(np.uint8)
      ...
      self.position = (self.position + batch_size) % self.capacity
      self.size = min(self.size + batch_size, self.capacity)
  \<close>
  The argument is the batch, a list of transitions. With capacity 0 the index array is
  all zeros (numpy's \<open>%\<close> by zero) and the first assignment raises \<open>IndexError\<close>; for
  an empty batch the \<open>%\<close> of Python integers raises \<open>ZeroDivisionError\<close>.
\<close>

definition ReplayBuffer_push ::
  "('a, 'z) ReplayBuffer_scheme \<Rightarrow> 'a list \<Rightarrow> error + ('a, 'z) ReplayBuffer_scheme" where
  "ReplayBuffer_push b batch =
     (let batch_size = length batch in
      if capacity b = 0 then Inl (if batch_size = 0 then ZeroDivisionError else IndexError)
      else
        let idx = push_indices batch_size (position b) (capacity b) in
        Inr (b\<lparr>slots := assign (slots b) idx batch,
                position := (position b + batch_size) mod capacity b,
                size_b := min (size_b b + batch_size) (capacity b)\<rparr>))"

text \<open>Single transitions pushed one after the other, stopped by the first error.\<close>

fun push_each ::
  "('a, 'z) ReplayBuffer_scheme \<Rightarrow> 'a list \<Rightarrow> error + ('a, 'z) ReplayBuffer_scheme" where
  "push_each b [] = Inr b"
| "push_each b (x # xs) =
     (case ReplayBuffer_push b [x] of Inl e \<Rightarrow> Inl e | Inr b' \<Rightarrow> push_each b' xs)"

text \<open>\<open>__len__\<close>\<close>

definition len :: "('a, 'z) ReplayBuffer_scheme \<Rightarrow> nat" where
  "len b = size_b b"


subsection \<open>The random generator\<close>

text \<open>
  A call of \<open>np.random.randint\<close> as the source writes it: the two bounds, the number of
  indices asked for, and the names of the keyword arguments that the call passes.
\<close>

record randint_call =
  low :: int
  high :: int
  count :: nat
  kwargs :: "string list"

text \<open>
  numpy's function is \<open>randint(low, high=None, size=None, dtype=int)\<close>; its code is not
  part of the repository. Python raises \<open>TypeError\<close> for a keyword argument that the
  function does not have, before the function runs: \<open>replace\<close> and \<open>p\<close> are two
  of those. A call without them returns \<open>size\<close> integers of \<open>[low, high)\<close>, the upper
  bound exclusive, and raises \<open>ValueError\<close> when \<open>low >= high\<close>.

  \<open>np_random_randint c r\<close>: \<open>r\<close> is a possible result of the call \<open>c\<close>.
\<close>

definition np_random_randint :: "randint_call \<Rightarrow> error + int list \<Rightarrow> bool" where
  "np_random_randint c r =
     (if list_ex (\<lambda>k. k \<notin> set [''low'', ''high'', ''size'', ''dtype'']) (kwargs c)
      then r = Inl TypeError
      else case r of
             Inr xs \<Rightarrow>
               low c < high c \<and> length xs = count c \<and>
               list_all (\<lambda>x. low c \<le> x \<and> x < high c) xs
           | Inl e \<Rightarrow> e = ValueError \<and> high c \<le> low c)"

text \<open>
  Modelled from the spec: the draw that the spec describes for these calls (sections 4.2
  and 4.3), which numpy's \<open>randint\<close> does not make: \<open>n\<close> distinct indices of
  \<open>[low, high)\<close> without replacement, weighted by \<open>p\<close> when it is given, so that an index
  of probability zero is not drawn; a draw that cannot be made (an empty range, more
  indices asked for than the range offers) raises \<open>ValueError\<close>.

  \<open>spec_draw low high n p r\<close>: \<open>r\<close> is a possible result of that draw.
\<close>

definition is_draw :: "int \<Rightarrow> int \<Rightarrow> nat \<Rightarrow> int list \<Rightarrow> bool" where
  "is_draw lo hi n xs =
     (lo < hi \<and> length xs = n \<and> distinct xs \<and> list_all (\<lambda>x. lo \<le> x \<and> x < hi) xs)"

definition eligible :: "int \<Rightarrow> int \<Rightarrow> real list option \<Rightarrow> int list" where
  "eligible lo hi p =
     (case p of None \<Rightarrow> [lo ..  hi - 1]
      | Some probs \<Rightarrow> filter (\<lambda>x. 0 < probs ! nat x) [lo .. hi - 1])"

definition spec_draw ::
  "int \<Rightarrow> int \<Rightarrow> nat \<Rightarrow> real list option \<Rightarrow> error + int list \<Rightarrow> bool" where
  "spec_draw lo hi n p r =
     (case r of
        Inr xs \<Rightarrow> is_draw lo hi n xs \<and> list_all (\<lambda>x. x \<in> set (eligible lo hi p)) xs
      | Inl e \<Rightarrow> e = ValueError \<and> (hi \<le> lo \<or> length (eligible lo hi p) < n))"

text \<open>
  Reading an array at an index array, \<open>arr[indices]\<close>: \<open>None\<close> is \<open>IndexError\<close>.
\<close>

definition np_take :: "'a list \<Rightarrow> int list \<Rightarrow> 'a list option" where
  "np_take arr idx =
     (if list_all (\<lambda>i. np_index (length arr) i \<noteq> None) idx
      then Some (map (\<lambda>i. arr ! the (np_index (length arr) i)) idx)
      else None)"

text \<open>
  \<^verbatim>\<open>
  def sample(self, batch_size: int):
      indices = np.random.randint(0, self.size - 1, batch_size, replace=False)
      np.random.shuffle(indices)
      states = torch.from_numpy(self.states[indices]) ...
      return states, actions, rewards, next_states, dones
  \<close>
  The generator's answer is the argument \<open>drawn\<close>: the index array after the draw and
  the shuffle (a shuffled draw is a draw), or the error of the draw. The sampler has no
  other input from the generator, and it assigns to no attribute of the buffer.
\<close>

text \<open>
  The call of \<open>sample(batch_size)\<close>,
  \<open>np.random.randint(0, self.size - 1, batch_size, replace=False)\<close>, and
  \<open>ReplayBuffer_draw b batch_size r\<close>: \<open>r\<close> is a possible answer of the generator to it.
\<close>

definition ReplayBuffer_randint :: "('a, 'z) ReplayBuffer_scheme \<Rightarrow> nat \<Rightarrow> randint_call" where
  "ReplayBuffer_randint b batch_size =
     \<lparr>low = 0, high = int (size_b b) - 1, count = batch_size, kwargs = [''replace'']\<rparr>"

definition ReplayBuffer_draw ::
  "('a, 'z) ReplayBuffer_scheme \<Rightarrow> nat \<Rightarrow> error + int list \<Rightarrow> bool" where
  "ReplayBuffer_draw b batch_size r = np_random_randint (ReplayBuffer_randint b batch_size) r"

definition ReplayBuffer_sample ::
  "('a, 'z) ReplayBuffer_scheme \<Rightarrow> error + int list \<Rightarrow> error + ('a list \<times> int list)" where
  "ReplayBuffer_sample b drawn =
     (case drawn of
        Inl e \<Rightarrow> Inl e
      | Inr indices \<Rightarrow>
          (case np_take (slots b) indices of
             None \<Rightarrow> Inl IndexError
           | Some batch \<Rightarrow> Inr (batch, indices)))"

subsection \<open>PrioritizedReplayBuffer\<close>

record 'a PrioritizedReplayBuffer = "'a ReplayBuffer" +
  alpha :: real
  priorities :: "real list"
  max_priority :: real

definition PrioritizedReplayBuffer_init :: "nat \<Rightarrow> real \<Rightarrow> 'a \<Rightarrow> 'a PrioritizedReplayBuffer" where
  "PrioritizedReplayBuffer_init c a z =
     \<lparr>capacity = c, slots = replicate c z, position = 0, size_b = 0,
      alpha = a, priorities = replicate c 0, max_priority = 1\<rparr>"

text \<open>
  \<^verbatim>\<open>
  def push(self, state, action, reward, next_state, done):
      start = self.position
      super().push(state, action, reward, next_state, done)
      batch_size = state.shape[0] if state.ndim == 4 else 1
      idxs = (np.arange(batch_size) + start) % self.capacity
      self.priorities[idxs] = self.max_priority
  \<close>
\<close>

definition PrioritizedReplayBuffer_push ::
  "'a PrioritizedReplayBuffer \<Rightarrow> 'a list \<Rightarrow> error + 'a PrioritizedReplayBuffer" where
  "PrioritizedReplayBuffer_push b batch =
     (let start = position b in
      case ReplayBuffer_push b batch of
        Inl e \<Rightarrow> Inl e
      | Inr b' \<Rightarrow>
          (let batch_size = length batch;
               idxs = push_indices batch_size start (capacity b')
           in Inr (b'\<lparr>priorities :=
                        assign (priorities b') idxs (replicate batch_size (max_priority b'))\<rparr>)))"

text \<open>
  \<^verbatim>\<open>
      prios = self.priorities[:self.size]
      probs = prios ** self.alpha
      prob_sum = probs.sum()
      if prob_sum == 0:
          probs = np.ones_like(probs) / self.size
      else:
          probs /= prob_sum
  \<close>
\<close>

definition powers :: "'a PrioritizedReplayBuffer \<Rightarrow> real option list" where
  "powers b = map (\<lambda>p. np_pow p (alpha b)) (take (size_b b) (priorities b))"

definition PrioritizedReplayBuffer_probs :: "'a PrioritizedReplayBuffer \<Rightarrow> real list option" where
  "PrioritizedReplayBuffer_probs b =
     (if list_ex (\<lambda>w. w = None) (powers b) then None
      else
        let probs = map the (powers b);
            prob_sum = sum_list probs
        in if prob_sum = 0 then Some (map (\<lambda>_. 1 / real (size_b b)) probs)
           else Some (map (\<lambda>p. p / prob_sum) probs))"

text \<open>
  \<^verbatim>\<open>
      total = len(self)
      weights = (total * probs[indices]) ** (-beta)
      weights /= (weights.max() + 1e-8)
  \<close>
  \<open>max\<close> of an empty array raises \<open>ValueError\<close>.
\<close>

definition weights :: "nat \<Rightarrow> real list \<Rightarrow> real \<Rightarrow> error + real list" where
  "weights n ps beta =
     (let ws = map (\<lambda>p. np_pow (real n * p) (- beta)) ps in
      if ps = [] then Inl ValueError
      else if list_ex (\<lambda>w. w = None) ws then Inl NonFinite
      else
        let w = map the ws; m = Max (set w) in
        if m + 1 / 100000000 = 0 then Inl NonFinite
        else Inr (map (\<lambda>x. x / (m + 1 / 100000000)) w))"

text \<open>
  \<^verbatim>\<open>
  def sample(self, batch_size: int, beta: float = 0.4):
      ...
      indices = np.random.randint(0, self.size - 1, batch_size, p=probs, replace=False)
      np.random.shuffle(indices)
      states = torch.from_numpy(self.states[indices]) ...
      total = len(self)
      weights = (total * probs[indices]) ** (-beta)
      weights /= (weights.max() + 1e-8)
      return states, actions, rewards, next_states, dones, weights, indices
  \<close>
  As in \<open>ReplayBuffer_sample\<close>, \<open>drawn\<close> is the generator's answer.
\<close>

text \<open>
  The call of \<open>sample(batch_size, beta)\<close>,
  \<open>np.random.randint(0, self.size - 1, batch_size, p=probs, replace=False)\<close>, and
  \<open>PrioritizedReplayBuffer_draw b batch_size r\<close>: \<open>r\<close> is a possible answer of the
  generator to it.
\<close>

definition PrioritizedReplayBuffer_randint ::
  "'a PrioritizedReplayBuffer \<Rightarrow> nat \<Rightarrow> randint_call" where
  "PrioritizedReplayBuffer_randint b batch_size =
     \<lparr>low = 0, high = int (size_b b) - 1, count = batch_size, kwargs = [''p'', ''replace'']\<rparr>"

definition PrioritizedReplayBuffer_draw ::
  "'a PrioritizedReplayBuffer \<Rightarrow> nat \<Rightarrow> error + int list \<Rightarrow> bool" where
  "PrioritizedReplayBuffer_draw b batch_size r =
     np_random_randint (PrioritizedReplayBuffer_randint b batch_size) r"

text \<open>
  An error of the draw is the first exception of the call: computing \<open>probs\<close> raises
  nothing, also where a value of it is \<open>inf\<close> or \<open>nan\<close>.
\<close>

definition PrioritizedReplayBuffer_sample ::
  "'a PrioritizedReplayBuffer \<Rightarrow> real \<Rightarrow> error + int list
     \<Rightarrow> error + ('a list \<times> real list \<times> int list)" where
  "PrioritizedReplayBuffer_sample b beta drawn =
     (case drawn of
        Inl e \<Rightarrow> Inl e
      | Inr indices \<Rightarrow>
          (case PrioritizedReplayBuffer_probs b of
             None \<Rightarrow> Inl NonFinite
           | Some probs \<Rightarrow>
               (case np_take (slots b) indices of
                  None \<Rightarrow> Inl IndexError
                | Some batch \<Rightarrow>
                    (case np_take probs indices of
                       None \<Rightarrow> Inl IndexError
                     | Some ps \<Rightarrow>
                         (case weights (len b) ps beta of
                            Inl e \<Rightarrow> Inl e
                          | Inr ws \<Rightarrow> Inr (batch, ws, indices))))))"

text \<open>
  \<^verbatim>\<open>
  def update_priorities(self, indices, new_priorities):
      for idx, prio in zip(indices, new_priorities):
          priority = min(abs(prio) + 1e-6, 1.0)
          self.priorities[idx] = priority
          self.max_priority = max(self.max_priority, priority)
  \<close>
  The result is the error of the call, if it raised, and the buffer as the call left it:
  the pairs before a failing index have been written.
\<close>

fun update_loop ::
  "'a PrioritizedReplayBuffer \<Rightarrow> (int \<times> real) list \<Rightarrow> error option \<times> 'a PrioritizedReplayBuffer" where
  "update_loop b [] = (None, b)"
| "update_loop b ((idx, prio) # rest) =
     (let priority = min (\<bar>prio\<bar> + 1 / 1000000) 1 in
      case np_index (length (priorities b)) idx of
        None \<Rightarrow> (Some IndexError, b)
      | Some j \<Rightarrow>
          update_loop (b\<lparr>priorities := (priorities b)[j := priority],
                         max_priority := max (max_priority b) priority\<rparr>) rest)"

definition PrioritizedReplayBuffer_update_priorities ::
  "'a PrioritizedReplayBuffer \<Rightarrow> int list \<Rightarrow> real list
     \<Rightarrow> error option \<times> 'a PrioritizedReplayBuffer" where
  "PrioritizedReplayBuffer_update_priorities b indices new_priorities =
     update_loop b (zip indices new_priorities)"

subsection \<open>PERBufferSumTree\<close>

record 'a PERBufferSumTree =
  sumtree :: "'a SumTree"
  alpha_t :: real
  epsilon :: real
  max_priority_t :: real

definition PERBufferSumTree_init :: "nat \<Rightarrow> real \<Rightarrow> error + 'a PERBufferSumTree" where
  "PERBufferSumTree_init max_len a =
     (case SumTree_init max_len of
        Inl e \<Rightarrow> Inl e
      | Inr t \<Rightarrow> Inr \<lparr>sumtree = t, alpha_t = a, epsilon = 1 / 1000000, max_priority_t = 1\<rparr>)"

text \<open>
  \<^verbatim>\<open>
  def push(self, state, action, reward, next_state, done):
      data = (state, action, reward, next_state, done)
      self.tree.add(self.max_priority, data)
  \<close>
\<close>

definition PERBufferSumTree_push ::
  "'a PERBufferSumTree \<Rightarrow> 'a \<Rightarrow> (error + 'a PERBufferSumTree) option" where
  "PERBufferSumTree_push b d =
     (case add (max_priority_t b) d (sumtree b) of
        None \<Rightarrow> None
      | Some (Inl e) \<Rightarrow> Some (Inl e)
      | Some (Inr t) \<Rightarrow> Some (Inr (b\<lparr>sumtree := t\<rparr>)))"

text \<open>
  \<^verbatim>\<open>
      while len(batch) < batch_size:
          s = random.uniform(0, self.tree.total())
          idx, p, data = self.tree.get(s)
          if data is not None:
              batch.append(data); idxs.append(idx); priorities.append(p)
  \<close>
  The numbers that \<open>random.uniform\<close> returns are the list \<open>draws\<close>, one for each turn
  of the loop; \<open>None\<close>: the loop has used them all and the batch is not full.
\<close>

fun collect ::
  "'a SumTree \<Rightarrow> nat \<Rightarrow> real list \<Rightarrow> (nat \<times> real \<times> 'a) list
     \<Rightarrow> (error + (nat \<times> real \<times> 'a) list) option" where
  "collect t n [] acc = (if length acc < n then None else Some (Inr acc))"
| "collect t n (x # xs) acc =
     (if length acc < n then
        (case get t x of
           Inl e \<Rightarrow> Some (Inl e)
         | Inr (idx, p, None) \<Rightarrow> collect t n xs acc
         | Inr (idx, p, Some d) \<Rightarrow> collect t n xs (acc @ [(idx, p, d)]))
      else Some (Inr acc))"

text \<open>
  \<^verbatim>\<open>
  def sample(self, batch_size: int, beta: float):
      assert self.tree.n_entries >= batch_size, "Not enough in buffer"
      ... the loop ...
      states, actions, rewards, next_states, dones = zip(*batch)
      N = self.tree.n_entries
      P = np.array(priorities, dtype=np.float32)
      P_norm = P / self.tree.total()
      weights = (N * P_norm) ** (-beta)
      weights /= weights.max()
      return states, actions, rewards, next_states, dones, weights, idxs
  \<close>
  Unpacking \<open>zip(*batch)\<close> of an empty batch raises \<open>ValueError\<close>. A division by zero of
  numpy floats raises nothing and gives \<open>inf\<close> or \<open>nan\<close>.
\<close>

definition PERBufferSumTree_sample ::
  "'a PERBufferSumTree \<Rightarrow> nat \<Rightarrow> real \<Rightarrow> real list
     \<Rightarrow> (error + ('a list \<times> real list \<times> nat list)) option" where
  "PERBufferSumTree_sample b batch_size beta draws =
     (if n_entries (sumtree b) < batch_size then Some (Inl AssertionError)
      else
        case collect (sumtree b) batch_size draws [] of
          None \<Rightarrow> None
        | Some (Inl e) \<Rightarrow> Some (Inl e)
        | Some (Inr entries) \<Rightarrow>
            if entries = [] then Some (Inl ValueError)
            else if total (sumtree b) = 0 then Some (Inl NonFinite)
            else
              let N = n_entries (sumtree b);
                  P_norm = map (\<lambda>(idx, p, d). p / total (sumtree b)) entries;
                  ws = map (\<lambda>p. np_pow (real N * p) (- beta)) P_norm
              in if list_ex (\<lambda>w. w = None) ws then Some (Inl NonFinite)
                 else
                   let w = map the ws; m = Max (set w) in
                   if m = 0 then Some (Inl NonFinite)
                   else Some (Inr (map (\<lambda>(idx, p, d). d) entries,
                                   map (\<lambda>x. x / m) w,
                                   map (\<lambda>(idx, p, d). idx) entries)))"

text \<open>
  \<^verbatim>\<open>
  def update_priorities(self, indices, priorities):
      for idx, p in zip(indices, priorities.squeeze(-1)):
          new_p = (abs(p) + self.epsilon) ** self.alpha
          self.tree.update(idx, new_p)
          self.max_priority = max(self.max_priority, new_p)
  \<close>
  The indices are indices of the tree array, as \<open>sample\<close> returns them.
\<close>

fun update_loop_t ::
  "'a PERBufferSumTree \<Rightarrow> (int \<times> real) list \<Rightarrow> (error + 'a PERBufferSumTree) option" where
  "update_loop_t b [] = Some (Inr b)"
| "update_loop_t b ((idx, p) # rest) =
     (case np_pow (\<bar>p\<bar> + epsilon b) (alpha_t b) of
        None \<Rightarrow> Some (Inl NonFinite)
      | Some new_p \<Rightarrow>
          (case update idx new_p (sumtree b) of
             None \<Rightarrow> None
           | Some (Inl e) \<Rightarrow> Some (Inl e)
           | Some (Inr t) \<Rightarrow>
               update_loop_t (b\<lparr>sumtree := t, max_priority_t := max (max_priority_t b) new_p\<rparr>) rest))"

definition PERBufferSumTree_update_priorities ::
  "'a PERBufferSumTree \<Rightarrow> int list \<Rightarrow> real list \<Rightarrow> (error + 'a PERBufferSumTree) option" where
  "PERBufferSumTree_update_priorities b indices prios = update_loop_t b (zip indices prios)"


subsection \<open>Auxiliary predicates\<close>

text \<open>
  The state of the tree in the middle of \<open>update\<close>: every internal node but \<open>j\<close> holds
  the sum of its children, and node \<open>j\<close> is still short of it by \<open>c\<close>.
\<close>

definition off_at :: "nat \<Rightarrow> real list \<Rightarrow> nat \<Rightarrow> real \<Rightarrow> bool" where
  "off_at n t j c =
     (length t = 2 * n - 1 \<and> j < n - 1 \<and>
      (\<forall>i < n - 1. i \<noteq> j \<longrightarrow> t ! i = t ! (2 * i + 1) + t ! (2 * i + 2)) \<and>
      t ! j + c = t ! (2 * j + 1) + t ! (2 * j + 2))"

subsection \<open>Reachable buffers\<close>

text \<open>
  The buffers that the public operations build. \<open>sample\<close> assigns to no attribute, so it
  is no step. A call of \<open>update_priorities\<close> of the flat buffer that raises leaves the
  buffer as written so far, which is a step too; for the tree the steps are the calls
  that return.
\<close>

inductive flat_reachable :: "'a PrioritizedReplayBuffer \<Rightarrow> bool" where
  flat_init: "flat_reachable (PrioritizedReplayBuffer_init c a z)"
| flat_push:
    "flat_reachable b \<Longrightarrow> PrioritizedReplayBuffer_push b batch = Inr b' \<Longrightarrow> flat_reachable b'"
| flat_update:
    "flat_reachable b \<Longrightarrow> PrioritizedReplayBuffer_update_priorities b indices errs = (e, b')
       \<Longrightarrow> flat_reachable b'"

inductive tree_reachable :: "'a PERBufferSumTree \<Rightarrow> bool" where
  tree_init: "PERBufferSumTree_init n a = Inr b \<Longrightarrow> tree_reachable b"
| tree_push:
    "tree_reachable b \<Longrightarrow> PERBufferSumTree_push b d = Some (Inr b') \<Longrightarrow> tree_reachable b'"
| tree_update:
    "tree_reachable b \<Longrightarrow> PERBufferSumTree_update_priorities b indices errs = Some (Inr b')
       \<Longrightarrow> tree_reachable b'"

text \<open>
  What holds of every reachable flat buffer: the priority array has \<open>capacity\<close> entries,
  the occupied slots are the first \<open>size\<close> ones, the cursor is the size until the buffer is
  full, and every occupied slot has a positive priority.
\<close>

definition flat_inv :: "'a PrioritizedReplayBuffer \<Rightarrow> bool" where
  "flat_inv b =
     (length (priorities b) = capacity b \<and> size_b b \<le> capacity b \<and>
      (size_b b < capacity b \<longrightarrow> position b = size_b b) \<and>
      1 \<le> max_priority b \<and>
      (\<forall>i < size_b b. 0 < priorities b ! i))"

text \<open>
  What holds of every reachable tree buffer of capacity \<open>n\<close>: the tree has \<open>2 n - 1\<close>
  nodes and \<open>n\<close> payloads, the cursor is below \<open>n\<close>, \<open>epsilon\<close> is positive,
  \<open>max_priority\<close> is at least 1, and the leaf of every stored payload is positive.
\<close>

definition tree_inv :: "'a PERBufferSumTree \<Rightarrow> bool" where
  "tree_inv b =
     (1 \<le> capacity_t (sumtree b) \<and>
      length (tree (sumtree b)) = 2 * capacity_t (sumtree b) - 1 \<and>
      length (data (sumtree b)) = capacity_t (sumtree b) \<and>
      write_t (sumtree b) < capacity_t (sumtree b) \<and>
      0 < epsilon b \<and> 1 \<le> max_priority_t b \<and>
      (\<forall>j < capacity_t (sumtree b).
         data (sumtree b) ! j \<noteq> None \<longrightarrow> 0 < tree (sumtree b) ! (capacity_t (sumtree b) - 1 + j)))"


section \<open>Properties\<close>

subsection \<open>The sum tree\<close>

lemma np_index_nat: "i < n \<Longrightarrow> np_index n (int i) = Some i"
  by (simp add: np_index_def)

lemma parent_nat: "1 \<le> i \<Longrightarrow> (int i - 1) div 2 = int ((i - 1) div 2)"
  by (simp add: of_nat_diff zdiv_int)

lemma off_at_root: 
  assumes "off_at n t 0 c"
  shows "sum_inv n (t[0 := t ! 0 + c])"
  using assms unfolding off_at_def sum_inv_def
  by (auto simp: nth_list_update)

lemma off_at_step:
  assumes o: "off_at n t p c" and p: "1 \<le> p"
  shows "off_at n (t[p := t ! p + c]) ((p - 1) div 2) c"
proof -
  define g where "g = (p - 1) div 2"
  have len: "length t = 2 * n - 1" and pn: "p < n - 1" 
    and oth: "\<And>i. i < n - 1 \<Longrightarrow> i \<noteq> p \<Longrightarrow> t ! i = t ! (2 * i + 1) + t ! (2 * i + 2)"
    and atp: "t ! p + c = t ! (2 * p + 1) + t ! (2 * p + 2)"
    using o by (auto simp: off_at_def)
  have gp: "g < p" "g < n - 1" using p pn by (auto simp: g_def)
  have child: "p = 2 * g + 1 \<or> p = 2 * g + 2" using p unfolding g_def by presburger
  let ?t = "t[p := t ! p + c]"
  have inr: "\<And>i. i < n - 1 \<Longrightarrow> 2 * i + 2 < length t" using len by auto
  have a: "?t ! g + c = ?t ! (2 * g + 1) + ?t ! (2 * g + 2)"
    using child oth[OF gp(2)] gp inr[OF gp(2)] pn len by (auto simp: nth_list_update)
  have b: "?t ! i = ?t ! (2 * i + 1) + ?t ! (2 * i + 2)" if "i < n - 1" "i \<noteq> g" for i
  proof (cases "i = p")
    case True
    then show ?thesis using atp pn len by (auto simp: nth_list_update)
  next
    case False
    have "2 * i + 1 \<noteq> p" "2 * i + 2 \<noteq> p" using that(2) child by auto
    then show ?thesis using oth[OF that(1) False] False by (simp add: nth_list_update)
  qed
  show ?thesis unfolding off_at_def g_def[symmetric] using a b gp len by auto
qed

lemma propagate_restores:
  assumes "1 \<le> idx" and "off_at n t ((idx - 1) div 2) c"
  shows "\<exists>t'. propagate (int idx) c t = Some (Inr t') \<and> sum_inv n t' \<and>
           (\<forall>j. n - 1 \<le> j \<longrightarrow> t' ! j = t ! j)"
  using assms
proof (induction idx arbitrary: t rule: less_induct)
  case (less idx)
  define p where "p = (idx - 1) div 2"
  have o: "off_at n t p c" using less.prems by (simp add: p_def)
  then have len: "length t = 2 * n - 1" and pn: "p < n - 1" by (auto simp: off_at_def)
  have par: "(int idx - 1) div 2 = int p" using less.prems(1) by (simp add: p_def parent_nat)
  have ix: "np_index (length t) (int p) = Some p" using len pn by (intro np_index_nat) auto
  let ?t = "t[p := t ! p + c]"
  show ?case
  proof (cases "p = 0")
    case True
    have "propagate (int idx) c t = Some (Inr ?t)"
      by (subst propagate.simps) (use par ix True in \<open>simp add: Let_def\<close>)
    moreover have "sum_inv n ?t" using off_at_root o True by simp
    moreover have "\<forall>j. n - 1 \<le> j \<longrightarrow> ?t ! j = t ! j" using pn by (auto simp: nth_list_update)
    ultimately show ?thesis by blast
  next
    case False
    then have p1: "1 \<le> p" by simp
    have lt: "p < idx" using less.prems(1) by (auto simp: p_def)
    have "off_at n ?t ((p - 1) div 2) c" by (rule off_at_step[OF o p1])
    from less.IH[OF lt p1 this] obtain t' where
      t': "propagate (int p) c ?t = Some (Inr t')" "sum_inv n t'" "\<forall>j. n - 1 \<le> j \<longrightarrow> t' ! j = ?t ! j"
      by blast
    have "propagate (int idx) c t = Some (Inr t')"
      by (subst propagate.simps) (use par ix False t'(1) in \<open>simp add: Let_def\<close>)
    moreover have "\<forall>j. n - 1 \<le> j \<longrightarrow> t' ! j = t ! j" using t'(3) pn by (auto simp: nth_list_update)
    ultimately show ?thesis using t'(2) by blast
  qed
qed


lemma update_restores:
  assumes n: "2 \<le> n" and inv: "sum_inv n (tree s)" and k: "n - 1 \<le> k" "k < 2 * n - 1"
  shows "\<exists>t'. update (int k) p s = Some (Inr (s\<lparr>tree := t'\<rparr>)) \<and> sum_inv n t' \<and> t' ! k = p \<and>
           (\<forall>j. n - 1 \<le> j \<longrightarrow> j \<noteq> k \<longrightarrow> t' ! j = tree s ! j)"
proof -
  let ?t = "tree s"
  define q where "q = (k - 1) div 2"
  define c where "c = p - ?t ! k"
  let ?t1 = "?t[k := p]"
  have len: "length ?t = 2 * n - 1" 
    and nodes: "\<And>i. i < n - 1 \<Longrightarrow> ?t ! i = ?t ! (2 * i + 1) + ?t ! (2 * i + 2)"
    using inv by (auto simp: sum_inv_def)
  have k1: "1 \<le> k" using n k by simp
  have qn: "q < n - 1" using n k unfolding q_def by auto
  have child: "k = 2 * q + 1 \<or> k = 2 * q + 2" using k1 unfolding q_def by presburger
  have ix: "np_index (length ?t) (int k) = Some k" using len k by (intro np_index_nat) simp
  have a: "?t1 ! q + c = ?t1 ! (2 * q + 1) + ?t1 ! (2 * q + 2)"
    using child nodes[OF qn] qn k len by (auto simp: nth_list_update c_def)
  have b: "?t1 ! i = ?t1 ! (2 * i + 1) + ?t1 ! (2 * i + 2)" if "i < n - 1" "i \<noteq> q" for i
  proof -
    have "2 * i + 1 \<noteq> k" "2 * i + 2 \<noteq> k" "i \<noteq> k" using that child k by auto
    then show ?thesis using nodes[OF that(1)] by (simp add: nth_list_update)
  qed
  have "off_at n ?t1 q c" unfolding off_at_def using a b qn len by auto
  from propagate_restores[OF k1 this[unfolded q_def]] obtain t' where
    t': "propagate (int k) c ?t1 = Some (Inr t')" "sum_inv n t'" "\<forall>j. n - 1 \<le> j \<longrightarrow> t' ! j = ?t1 ! j"
    by blast
  have "update (int k) p s = Some (Inr (s\<lparr>tree := t'\<rparr>))"
    using ix t'(1) by (simp add: update_def Let_def c_def)
  moreover have "t' ! k = p" using t'(3) k len by simp
  moreover have "\<forall>j. n - 1 \<le> j \<longrightarrow> j \<noteq> k \<longrightarrow> t' ! j = ?t ! j" using t'(3) by simp
  ultimately show ?thesis using t'(2) by blast
qed

lemma update_seq_restores:
  assumes "2 \<le> n" and "sum_inv n (tree s)" 
    and "\<forall>(idx, p) \<in> set us. int n - 1 \<le> idx \<and> idx \<le> 2 * int n - 2"
  shows "\<exists>t'. update_seq us s = Some (Inr (s\<lparr>tree := t'\<rparr>)) \<and> sum_inv n t'"
  using assms
proof (induction us arbitrary: s)
  case Nil
  then show ?case by (intro exI[of _ "tree s"]) simp
next
  case (Cons u us)
  obtain idx p where u: "u = (idx, p)" by (cases u)
  have r: "int n - 1 \<le> idx" "idx \<le> 2 * int n - 2" using Cons.prems(3) u by auto
  define k where "k = nat idx"
  have k: "idx = int k" "n - 1 \<le> k" "k < 2 * n - 1" using r Cons.prems(1) by (auto simp: k_def)
  from update_restores[OF Cons.prems(1,2) k(2,3), of p] obtain t1 where
    t1: "update (int k) p s = Some (Inr (s\<lparr>tree := t1\<rparr>))" "sum_inv n t1" by blast
  have "\<exists>t'. update_seq us (s\<lparr>tree := t1\<rparr>) = Some (Inr (s\<lparr>tree := t1\<rparr>\<lparr>tree := t'\<rparr>)) \<and> sum_inv n t'"
    using Cons.prems(1,3) t1(2) by (intro Cons.IH) auto
  then show ?case using t1(1) k(1) u by auto
qed

lemma sum_children: "(\<Sum>i<(m::nat). f (2 * i + 1) + f (2 * i + 2)) = (\<Sum>j = 1 ..< 2 * m + 1. (f j :: real))"
  by (induction m) simp_all

lemma root_is_leaf_sum:
  assumes "1 \<le> n" and "sum_inv n t"
  shows "t ! 0 = leaf_sum n t"
proof (cases "n = 1")
  case True
  then show ?thesis by (simp add: leaf_sum_def)
next
  case False
  then have n: "2 \<le> n" using assms(1) by simp
  have "(\<Sum>i<n - 1. t ! i) = (\<Sum>i<n - 1. t ! (2 * i + 1) + t ! (2 * i + 2))"
    using assms(2) by (simp add: sum_inv_def)
  also have "\<dots> = (\<Sum>j = 1 ..< 2 * (n - 1) + 1. t ! j)" by (rule sum_children)
  also have "2 * (n - 1) + 1 = 2 * n - 1" using n by simp
  also have "(\<Sum>j = 1 ..< 2 * n - 1. t ! j) = (\<Sum>j = 1 ..< n - 1. t ! j) + (\<Sum>j = n - 1 ..< 2 * n - 1. t ! j)"
    using n by (intro sum.atLeastLessThan_concat[symmetric]) auto
  finally have "(\<Sum>i<n - 1. t ! i) = (\<Sum>j = 1 ..< n - 1. t ! j) + leaf_sum n t"
    by (simp add: leaf_sum_def)
  moreover have "(\<Sum>i<n - 1. t ! i) = t ! 0 + (\<Sum>j = 1 ..< n - 1. t ! j)"
    using n by (simp add: lessThan_atLeast0 sum.atLeast_Suc_lessThan)
  ultimately show ?thesis by simp
qed

lemma propagate_root_diverges_aux:
  assumes "propagate idx c t = Some r"
  shows "\<not> ((idx = 0 \<or> idx = - 1) \<and> t \<noteq> [])"
proof (rule propagate.raw_induct[where P = "\<lambda>idx c t r. \<not> ((idx = 0 \<or> idx = - 1) \<and> t \<noteq> [])", OF _ assms])
  fix f :: "int \<Rightarrow> real \<Rightarrow> real list \<Rightarrow> (error + real list) option" and idx c t r
  assume IH: "\<And>idx c t r. f idx c t = Some r \<Longrightarrow> \<not> ((idx = 0 \<or> idx = - 1) \<and> t \<noteq> [])"
    and eq: "(let parent = (idx - 1) div 2 in
      case np_index (length t) parent of
        None \<Rightarrow> Some (Inl IndexError)
      | Some j \<Rightarrow>
          (let tree' = t[j := t ! j + c] in
           if parent \<noteq> 0 then f parent c tree' else Some (Inr tree'))) = Some r"
  show "\<not> ((idx = 0 \<or> idx = - 1) \<and> t \<noteq> [])"
  proof
    assume a: "(idx = 0 \<or> idx = - 1) \<and> t \<noteq> []"
    then have par: "(idx - 1) div 2 = - 1" by auto
    have ix: "np_index (length t) (- 1) = Some (length t - 1)"
      using a by (cases t) (auto simp: np_index_def)
    from eq have "f (- 1) c (t[length t - 1 := t ! (length t - 1) + c]) = Some r"
      by (simp add: par ix Let_def)
    from IH[OF this] have "t[length t - 1 := t ! (length t - 1) + c] = []" by simp
    then show False using a by simp
  qed
qed

lemma propagate_root_diverges: "t \<noteq> [] \<Longrightarrow> propagate 0 c t = None"
  using propagate_root_diverges_aux[of 0 c t] by (cases "propagate 0 c t") auto

lemma sum_inv_init: "1 \<le> n \<Longrightarrow> sum_inv n (replicate (2 * n - 1) 0)"
  by (auto simp: sum_inv_def)

lemma update_root_diverges: "tree s \<noteq> [] \<Longrightarrow> update 0 p s = None"
  by (cases "tree s") (simp_all add: update_def np_index_def propagate_root_diverges Let_def)

text \<open>
  Claim C1. A \<open>SumTree\<close> of capacity \<open>n\<close> starts with \<open>2 n - 1\<close> zero nodes. After
  any sequence of \<open>update(leaf_index, new_priority)\<close> calls on leaves
  \<open>n - 1 \<le> leaf_index \<le> 2 n - 2\<close>, every internal node \<open>i\<close> holds
  \<open>tree[2 i + 1] + tree[2 i + 2]\<close> and the root holds the sum of all leaves. For
  \<open>n \<ge> 2\<close> every such sequence returns. For \<open>n = 1\<close> the only leaf is the root and no
  \<open>update\<close> returns: \<open>_propagate\<close> is entered at index 0, whose parent is
  \<open>(0 - 1) // 2 = - 1\<close>, and never reaches \<open>parent = 0\<close>; the property of the tree is
  then trivial (no internal node, one leaf).
\<close>

theorem sum_tree_invariant:
  assumes init: "SumTree_init n = Inr s0"
    and leaves: "list_all (\<lambda>(idx, p). int n - 1 \<le> idx \<and> idx \<le> 2 * int n - 2) us"
  shows "(\<forall>s. update_seq us s0 = Some (Inr s) \<longrightarrow>
            length (tree s) = 2 * n - 1 \<and>
            (\<forall>i < n - 1. tree s ! i = tree s ! (2 * i + 1) + tree s ! (2 * i + 2)) \<and>
            total s = leaf_sum n (tree s)) \<and>
         (2 \<le> n \<longrightarrow> (\<exists>s. update_seq us s0 = Some (Inr s))) \<and>
         (n = 1 \<and> us \<noteq> [] \<longrightarrow> update_seq us s0 = None)"
proof -
  have n: "1 \<le> n" and t0: "tree s0 = replicate (2 * n - 1) 0"
    using init by (auto simp: SumTree_init_def split: if_splits)
  have inv0: "sum_inv n (tree s0)" unfolding t0 by (rule sum_inv_init[OF n])
  have rng: "\<forall>(idx, p) \<in> set us. int n - 1 \<le> idx \<and> idx \<le> 2 * int n - 2"
    using leaves by (simp add: list_all_iff)
  have one: "update_seq us s0 = None" if n1: "n = 1" and ne: "us \<noteq> []"
  proof -
    obtain idx p rest where us: "us = (idx, p) # rest" using ne by (cases us) auto
    have "idx = 0" using rng us n1 by auto
    moreover have "tree s0 \<noteq> []" using t0 n1 by simp
    ultimately show ?thesis using us by (simp add: update_root_diverges)
  qed
  have two: "\<exists>t'. update_seq us s0 = Some (Inr (s0\<lparr>tree := t'\<rparr>)) \<and> sum_inv n t'" if "2 \<le> n"
    by (rule update_seq_restores[OF that inv0 rng])
  have part: "sum_inv n (tree s)" if "update_seq us s0 = Some (Inr s)" for s
  proof (cases "2 \<le> n")
    case True
    then show ?thesis using two that by auto
  next
    case False
    then have n1: "n = 1" using n by simp
    then have "us = []" using one that by (cases us) auto
    then show ?thesis using that inv0 by simp
  qed
  have "length (tree s) = 2 * n - 1 \<and>
        (\<forall>i < n - 1. tree s ! i = tree s ! (2 * i + 1) + tree s ! (2 * i + 2)) \<and>
        total s = leaf_sum n (tree s)" if "update_seq us s0 = Some (Inr s)" for s
    using part[OF that] root_is_leaf_sum[OF n part[OF that]] by (simp add: sum_inv_def total_def)
  then show ?thesis using two one by blast
qed



text \<open>The theorem at capacity 4, for four updates of the leaves 3, 6, 3 and 4.\<close>

theorem sum_tree_invariant_witness:
  "update_seq [(3, 5), (6, 2), (3, 1), (4, 7)]
         \<lparr>capacity_t = 4, tree = [0, 0, 0, 0, 0, 0, 0], data = [None, None, None, None :: unit option],
          write_t = 0, n_entries = 0\<rparr> = 
    Some (Inr \<lparr>capacity_t = 4, tree = [10, 8, 2, 1, 7, 0, 2], data = [None, None, None, None :: unit option],
          write_t = 0, n_entries = 0\<rparr>) \<and>
   total \<lparr>capacity_t = 4, tree = [10, 8, 2, 1, 7, 0, 2], data = [None, None, None, None :: unit option],
          write_t = 0, n_entries = 0\<rparr> = leaf_sum 4 [10, 8, 2, 1, 7, 0, 2]"
proof -
  let ?s0 = "\<lparr>capacity_t = 4, tree = [0, 0, 0, 0, 0, 0, 0], data = [None, None, None, None :: unit option],
          write_t = 0, n_entries = 0\<rparr>"
  let ?us = "[(3, 5), (6, 2), (3, 1), (4 :: int, 7 :: real)]"
  have h1: "SumTree_init 4 = Inr ?s0" by (simp add: SumTree_init_def numeral_eq_Suc)
  have h2: "list_all (\<lambda>(idx, p). int 4 - 1 \<le> idx \<and> idx \<le> 2 * int 4 - 2) ?us" by simp
  have ev: "update_seq ?us ?s0 = Some (Inr (?s0\<lparr>tree := [10, 8, 2, 1, 7, 0, 2]\<rparr>))"
    by (simp add: update_def np_index_def propagate.simps Let_def)
  from sum_tree_invariant[OF h1 h2] ev show ?thesis by simp
qed

subsection \<open>The ring of the replay buffer\<close>

lemma push_one:
  assumes "0 < capacity b"
  shows "ReplayBuffer_push b [x] =
           Inr (b\<lparr>slots := (slots b)[position b mod capacity b := x],
                  position := (position b + 1) mod capacity b,
                  size_b := min (size_b b + 1) (capacity b)\<rparr>)"
  using assms by (simp add: ReplayBuffer_push_def push_indices_def assign_def Let_def)

lemma push_each_snoc:
  "push_each b (xs @ [x]) =
     (case push_each b xs of Inl e \<Rightarrow> Inl e | Inr b' \<Rightarrow> ReplayBuffer_push b' [x])"
  by (induction xs arbitrary: b) (auto split: sum.splits)

text \<open>
  After \<open>k\<close> single pushes into an empty buffer of capacity \<open>n > 0\<close>: the cursor is
  \<open>k mod n\<close>, the size is \<open>min k n\<close>, and each of the last \<open>n\<close> pushes, the \<open>j\<close>-th
  say, is in slot \<open>j mod n\<close>.
\<close>

lemma push_each_ring:
  assumes n: "0 < n"
  shows "\<exists>b. push_each (ReplayBuffer_init n z) ts = Inr b \<and> capacity b = n \<and>
           length (slots b) = n \<and> position b = length ts mod n \<and>
           size_b b = min (length ts) n \<and>
           (\<forall>j < length ts. length ts \<le> j + n \<longrightarrow> slots b ! (j mod n) = ts ! j)"
proof (induction ts rule: rev_induct)
  case Nil
  then show ?case by (simp add: ReplayBuffer_init_def)
next
  case (snoc x ts)
  then obtain b where b: "push_each (ReplayBuffer_init n z) ts = Inr b" "capacity b = n"
    "length (slots b) = n" "position b = length ts mod n" "size_b b = min (length ts) n"
    and old: "\<And>j. j < length ts \<Longrightarrow> length ts \<le> j + n \<Longrightarrow> slots b ! (j mod n) = ts ! j"
    by blast
  let ?k = "length ts"
  let ?b = "b\<lparr>slots := (slots b)[position b mod capacity b := x],
                position := (position b + 1) mod capacity b,
                size_b := min (size_b b + 1) (capacity b)\<rparr>"
  have step: "push_each (ReplayBuffer_init n z) (ts @ [x]) = Inr ?b"
    using b(1,2) n by (simp add: push_each_snoc push_one)
  have pos: "position b mod capacity b = ?k mod n" using b(2,4) by simp
  have "slots ?b ! (j mod n) = (ts @ [x]) ! j" if j: "j < Suc ?k" "Suc ?k \<le> j + n" for j
  proof (cases "j = ?k")
    case True
    then show ?thesis using pos b(3) n by simp
  next
    case False
    then have lt: "j < ?k" using j by simp
    have "j mod n \<noteq> ?k mod n"
    proof
      assume e: "j mod n = ?k mod n"
      then have "(?k - j) mod n = 0" using lt by (metis mod_eq_dvd_iff_nat less_imp_le_nat dvd_imp_mod_0)
      moreover have "0 < ?k - j" "?k - j < n" using lt j by auto
      ultimately show False by simp
    qed
    then have "slots ?b ! (j mod n) = slots b ! (j mod n)" using pos by simp
    also have "\<dots> = ts ! j" using old[OF lt] j by simp
    finally show ?thesis using lt by (simp add: nth_append)
  qed
  moreover have "position ?b = length (ts @ [x]) mod n" using b(2,4) by (simp add: mod_Suc_eq)
  moreover have "size_b ?b = min (length (ts @ [x])) n" using b(2,5) by auto
  ultimately show ?case using step b(2,3) by auto
qed

text \<open>
  Claim C2, amended. After \<open>k > n\<close> single pushes into an empty \<open>ReplayBuffer\<close> of
  capacity \<open>n\<close>, every push has succeeded, \<open>len()\<close> is \<open>n\<close>, the cursor is \<open>k mod n\<close>,
  and the buffer holds the last \<open>n\<close> pushes in ring order: for every \<open>s < n\<close> the
  \<open>(k - n + s)\<close>-th pushed transition (counted from 0) is in slot \<open>(k + s) mod n\<close>.
\<close>

theorem ring_order:
  assumes "0 < n" and "n < length ts"
  shows "\<exists>b. push_each (ReplayBuffer_init n z) ts = Inr b \<and> len b = n \<and>
           position b = length ts mod n \<and>
           (\<forall>s < n. slots b ! ((length ts + s) mod n) = ts ! (length ts - n + s))"
proof -
  from push_each_ring[OF assms(1), of z ts] obtain b where
    b: "push_each (ReplayBuffer_init n z) ts = Inr b" "position b = length ts mod n"
       "size_b b = min (length ts) n"
    and ring: "\<And>j. j < length ts \<Longrightarrow> length ts \<le> j + n \<Longrightarrow> slots b ! (j mod n) = ts ! j"
    by blast
  have "slots b ! ((length ts + s) mod n) = ts ! (length ts - n + s)" if "s < n" for s
  proof -
    have "(length ts - n + s) mod n = (length ts - n + s + n) mod n" by simp
    also have "length ts - n + s + n = length ts + s" using assms(2) by simp
    finally show ?thesis using ring[of "length ts - n + s"] that assms by simp
  qed
  then show ?thesis using b assms by (auto simp: len_def)
qed

lemma init_4: "ReplayBuffer_init 4 (0 :: nat) = \<lparr>capacity = 4, slots = [0, 0, 0, 0], position = 0, size_b = 0\<rparr>"
  by (simp add: ReplayBuffer_init_def numeral_eq_Suc)

text \<open>The theorem for six pushes into a buffer of capacity 4.\<close>

theorem ring_order_witness:
  "push_each (ReplayBuffer_init 4 0) [10, 11, 12, 13, 14, 15 :: nat] =
     Inr \<lparr>capacity = 4, slots = [14, 15, 12, 13], position = 2, size_b = 4\<rparr> \<and>
   [14, 15, 12, 13 :: nat] ! ((6 + 1) mod 4) = [10, 11, 12, 13, 14, 15] ! (6 - 4 + 1)"
proof -
  have ev: "push_each (ReplayBuffer_init 4 0) [10, 11, 12, 13, 14, 15 :: nat] =
     Inr \<lparr>capacity = 4, slots = [14, 15, 12, 13], position = 2, size_b = 4\<rparr>"
    by (simp add: init_4 push_one)
  from ring_order[of 4 "[10, 11, 12, 13, 14, 15 :: nat]" 0] ev show ?thesis by simp
qed

text \<open>
  Claim C2 as stated puts the \<open>(k - n + s)\<close>-th pushed transition in slot \<open>s\<close>. After
  five pushes into a buffer of capacity 4, slot 0 holds the fifth transition: it is
  neither the transition of index \<open>5 - 4 + 0\<close> counted from 0 nor the one counted from 1.
\<close>

theorem ring_slot_counterexample:
  "push_each (ReplayBuffer_init 4 0) [10, 11, 12, 13, 14 :: nat] =
     Inr \<lparr>capacity = 4, slots = [14, 11, 12, 13], position = 1, size_b = 4\<rparr> \<and>
   len \<lparr>capacity = 4, slots = [14, 11, 12, 13 :: nat], position = 1, size_b = 4\<rparr> = 4 \<and>
   slots \<lparr>capacity = 4, slots = [14, 11, 12, 13 :: nat], position = 1, size_b = 4\<rparr> ! 0
     \<noteq> [10, 11, 12, 13, 14] ! (5 - 4 + 0) \<and>
   slots \<lparr>capacity = 4, slots = [14, 11, 12, 13 :: nat], position = 1, size_b = 4\<rparr> ! 0
     \<noteq> [10, 11, 12, 13, 14] ! (5 - 4 + 0 - 1)"
  by (simp add: init_4 push_one len_def)

subsection \<open>One update of the tree\<close>

lemma propagate_returns:
  assumes "1 \<le> idx" and "idx < length t"
  shows "\<exists>t'. propagate (int idx) c t = Some (Inr t') \<and> length t' = length t \<and>
           t' ! 0 = t ! 0 + c \<and> (\<forall>j. (idx - 1) div 2 < j \<longrightarrow> t' ! j = t ! j)"
  using assms
proof (induction idx arbitrary: t rule: less_induct)
  case (less idx)
  define p where "p = (idx - 1) div 2"
  have lt: "p < idx" using less.prems(1) by (auto simp: p_def)
  have par: "(int idx - 1) div 2 = int p" using less.prems(1) by (simp add: p_def parent_nat)
  have ix: "np_index (length t) (int p) = Some p" using lt less.prems(2) by (intro np_index_nat) simp
  let ?t = "t[p := t ! p + c]"
  show ?case
  proof (cases "p = 0")
    case True
    have "propagate (int idx) c t = Some (Inr ?t)"
      by (subst propagate.simps) (use par ix True in \<open>simp add: Let_def\<close>)
    moreover have "?t ! 0 = t ! 0 + c" using True less.prems by (cases t) auto
    moreover have "\<forall>j. p < j \<longrightarrow> ?t ! j = t ! j" by simp
    ultimately show ?thesis unfolding p_def[symmetric] by simp
  next
    case False
    then have p1: "1 \<le> p" by simp
    have "p < length ?t" using lt less.prems(2) by simp
    from less.IH[OF lt p1 this] obtain t' where
      t': "propagate (int p) c ?t = Some (Inr t')" "length t' = length ?t" "t' ! 0 = ?t ! 0 + c"
          "\<forall>j. (p - 1) div 2 < j \<longrightarrow> t' ! j = ?t ! j"
      by blast
    have "propagate (int idx) c t = Some (Inr t')"
      by (subst propagate.simps) (use par ix False t'(1) in \<open>simp add: Let_def\<close>)
    moreover have "t' ! 0 = t ! 0 + c" using t'(3) False by simp
    moreover have "t' ! j = t ! j" if "p < j" for j
    proof -
      have "(p - 1) div 2 < j" using that by auto
      then show ?thesis using t'(4) that by simp
    qed
    moreover have "length t' = length t" using t'(2) by simp
    ultimately show ?thesis unfolding p_def[symmetric] by blast
  qed
qed

lemma update_returns:
  assumes k: "1 \<le> k" "k < length (tree s)"
  shows "\<exists>t'. update (int k) p s = Some (Inr (s\<lparr>tree := t'\<rparr>)) \<and> length t' = length (tree s) \<and>
           t' ! k = p \<and> t' ! 0 = tree s ! 0 + (p - tree s ! k) \<and>
           (\<forall>j. (k - 1) div 2 < j \<longrightarrow> j \<noteq> k \<longrightarrow> t' ! j = tree s ! j)"
proof -
  let ?t1 = "(tree s)[k := p]"
  have ix: "np_index (length (tree s)) (int k) = Some k" using k by (intro np_index_nat)
  have "k < length ?t1" using k by simp
  from propagate_returns[OF k(1) this, of "p - tree s ! k"] obtain t' where
    t': "propagate (int k) (p - tree s ! k) ?t1 = Some (Inr t')" "length t' = length ?t1"
        "t' ! 0 = ?t1 ! 0 + (p - tree s ! k)" "\<forall>j. (k - 1) div 2 < j \<longrightarrow> t' ! j = ?t1 ! j"
    by blast
  have "update (int k) p s = Some (Inr (s\<lparr>tree := t'\<rparr>))"
    using ix t'(1) by (simp add: update_def Let_def)
  moreover have "t' ! k = p"
  proof -
    have "(k - 1) div 2 < k" using k(1) by auto
    then show ?thesis using t'(4) k(2) by simp
  qed
  moreover have "t' ! 0 = tree s ! 0 + (p - tree s ! k)" using t'(3) k(1) by simp
  ultimately show ?thesis using t'(2,4) by auto
qed

lemma np_pow_pos: "0 < x \<Longrightarrow> np_pow x a = Some (x powr a)"
  by (simp add: np_pow_def)

text \<open>
  Claim C5, amended. The indices of \<open>update_priorities\<close> are indices of the tree array:
  the transition of data slot \<open>d\<close> is the leaf \<open>capacity - 1 + d\<close>, slot 0 of a tree of
  capacity 4 is index 3. For every index \<open>1 \<le> k < 2 capacity - 1\<close> the call
  \<open>update_priorities([k], [e])\<close> returns, sets \<open>tree[k]\<close> to \<open>(|e| + epsilon) ** alpha\<close> and
  increases \<open>total()\<close> by exactly that value minus the one stored at \<open>k\<close> before.
\<close>

theorem update_priorities_total:
  assumes "1 \<le> k" and "k < length (tree (sumtree b))" and "0 < epsilon b"
  shows "\<exists>b'. PERBufferSumTree_update_priorities b [int k] [e] = Some (Inr b') \<and>
           tree (sumtree b') ! k = (\<bar>e\<bar> + epsilon b) powr alpha_t b \<and>
           total (sumtree b') =
             total (sumtree b) + ((\<bar>e\<bar> + epsilon b) powr alpha_t b - tree (sumtree b) ! k)"
proof -
  let ?p = "(\<bar>e\<bar> + epsilon b) powr alpha_t b"
  have pw: "np_pow (\<bar>e\<bar> + epsilon b) (alpha_t b) = Some ?p" using assms(3) by (intro np_pow_pos) simp
  from update_returns[OF assms(1,2), of ?p] obtain t' where
    t': "update (int k) ?p (sumtree b) = Some (Inr ((sumtree b)\<lparr>tree := t'\<rparr>))" "t' ! k = ?p"
        "t' ! 0 = tree (sumtree b) ! 0 + (?p - tree (sumtree b) ! k)"
    by blast
  show ?thesis
    using pw t' by (simp add: PERBufferSumTree_update_priorities_def total_def)
qed

text \<open>The theorem on a tree of capacity 4 with four priorities 1, at index 3.\<close>

theorem update_priorities_total_witness:
  "\<exists>b'. PERBufferSumTree_update_priorities
           \<lparr>sumtree = \<lparr>capacity_t = 4, tree = [4, 2, 2, 1, 1, 1, 1],
                      data = [Some (), Some (), Some (), Some ()], write_t = 0, n_entries = 4\<rparr>,
            alpha_t = 1, epsilon = 1 / 1000000, max_priority_t = 1\<rparr> [3] [10] = Some (Inr b') \<and>
         tree (sumtree b') ! 3 = 10000001 / 1000000 \<and>
         total (sumtree b') = 4 + (10000001 / 1000000 - 1)"
  using update_priorities_total[of 3
           "\<lparr>sumtree = \<lparr>capacity_t = 4, tree = [4, 2, 2, 1, 1, 1, 1],
                      data = [Some (), Some (), Some (), Some ()], write_t = 0, n_entries = 4\<rparr>,
            alpha_t = 1, epsilon = 1 / 1000000, max_priority_t = 1\<rparr>" 10]
  by (simp add: total_def)

text \<open>
  Claim C5 as stated calls \<open>update_priorities([0], [10.0])\<close>: index 0 is the root, and
  the call never returns on a tree of capacity 4.
\<close>

theorem update_priorities_root_counterexample:
  "PERBufferSumTree_update_priorities
     \<lparr>sumtree = \<lparr>capacity_t = 4, tree = [4, 2, 2, 1, 1, 1, 1],
                 data = [Some (), Some (), Some (), Some ()], write_t = 0, n_entries = 4\<rparr>,
      alpha_t = 1, epsilon = 1 / 1000000, max_priority_t = 1\<rparr> [0] [10] = None"
  by (simp add: PERBufferSumTree_update_priorities_def np_pow_def update_root_diverges)

subsection \<open>Updating priorities\<close>

lemma Max_insert_max:
  fixes a b :: real
  assumes "finite S"
  shows "Max (insert (max a b) S) = Max (insert a (insert b S))"
proof (cases "S = {}")
  case True
  then show ?thesis by (simp add: max.commute)
next
  case False
  then show ?thesis using assms by (simp add: max.assoc)
qed

lemma update_loop_valid:
  assumes "list_all (\<lambda>(i, e). 0 \<le> i \<and> i < int (length (priorities b))) ps"
  shows "\<exists>b'. update_loop b ps = (None, b') \<and>
           length (priorities b') = length (priorities b) \<and>
           (\<forall>i. 0 \<le> i \<longrightarrow> priorities b' ! nat i =
                 (case map_of (rev ps) i of
                    None \<Rightarrow> priorities b ! nat i
                  | Some e \<Rightarrow> min (\<bar>e\<bar> + 1 / 1000000) 1)) \<and>
           max_priority b' =
             Max (insert (max_priority b) ((\<lambda>(i, e). min (\<bar>e\<bar> + 1 / 1000000) 1) ` set ps))"
  using assms
proof (induction ps arbitrary: b)
  case Nil
  then show ?case by simp
next
  case (Cons a ps)
  obtain i0 e0 where a: "a = (i0, e0)" by (cases a)
  let ?f = "\<lambda>e :: real. min (\<bar>e\<bar> + 1 / 1000000) 1"
  define b1 where "b1 = b\<lparr>priorities := (priorities b)[nat i0 := ?f e0],
                          max_priority := max (max_priority b) (?f e0)\<rparr>"
  have i0: "0 \<le> i0" "i0 < int (length (priorities b))" using Cons.prems a by auto
  have ix: "np_index (length (priorities b)) i0 = Some (nat i0)" using i0 by (simp add: np_index_def)
  have step: "update_loop b (a # ps) = update_loop b1 ps"
    using ix by (simp add: a b1_def Let_def)
  have len1: "length (priorities b1) = length (priorities b)" by (simp add: b1_def)
  have "list_all (\<lambda>(i, e). 0 \<le> i \<and> i < int (length (priorities b1))) ps"
    using Cons.prems by (simp add: len1)
  from Cons.IH[OF this] obtain b' where
    b': "update_loop b1 ps = (None, b')" "length (priorities b') = length (priorities b1)"
        "\<And>i. 0 \<le> i \<Longrightarrow> priorities b' ! nat i =
                 (case map_of (rev ps) i of None \<Rightarrow> priorities b1 ! nat i | Some e \<Rightarrow> ?f e)"
        "max_priority b' = Max (insert (max_priority b1) ((\<lambda>(i, e). ?f e) ` set ps))"
    by blast
  have nth: "priorities b' ! nat i =
        (case map_of (rev (a # ps)) i of None \<Rightarrow> priorities b ! nat i | Some e \<Rightarrow> ?f e)"
    if "0 \<le> i" for i
  proof (cases "map_of (rev ps) i")
    case (Some e)
    then show ?thesis using b'(3)[OF that] by (simp add: a map_add_def)
  next
    case None
    have "priorities b1 ! nat i = (if i = i0 then ?f e0 else priorities b ! nat i)"
      using i0 that by (auto simp: b1_def nth_list_update)
    then show ?thesis using b'(3)[OF that] None by (simp add: a map_add_def)
  qed
  have "max_priority b' = Max (insert (max_priority b) ((\<lambda>(i, e). ?f e) ` set (a # ps)))"
    using b'(4) Max_insert_max[of "(\<lambda>(i, e). ?f e) ` set ps" "max_priority b" "?f e0"]
    by (simp add: b1_def a)
  then show ?case using step b'(1,2) len1 nth by auto
qed

lemma update_leaf:
  assumes n: "2 \<le> n" and len: "length (tree s) = 2 * n - 1" and k: "n - 1 \<le> k" "k < 2 * n - 1"
  shows "\<exists>t'. update (int k) p s = Some (Inr (s\<lparr>tree := t'\<rparr>)) \<and> length t' = 2 * n - 1 \<and>
           t' ! k = p \<and> (\<forall>j. n - 1 \<le> j \<longrightarrow> j \<noteq> k \<longrightarrow> t' ! j = tree s ! j)"
proof -
  have k1: "1 \<le> k" "k < length (tree s)" using n k len by auto
  from update_returns[OF k1, of p] obtain t' where
    t': "update (int k) p s = Some (Inr (s\<lparr>tree := t'\<rparr>))" "length t' = length (tree s)" "t' ! k = p"
        "\<forall>j. (k - 1) div 2 < j \<longrightarrow> j \<noteq> k \<longrightarrow> t' ! j = tree s ! j"
    by blast
  have "(k - 1) div 2 < j" if "n - 1 \<le> j" for j using that k n by auto
  then show ?thesis using t' len by auto
qed

lemma update_loop_t_leaves:
  assumes "2 \<le> n" and "length (tree (sumtree b)) = 2 * n - 1" and "0 < epsilon b"
    and "list_all (\<lambda>(i, e). int n - 1 \<le> i \<and> i \<le> 2 * int n - 2) ps"
  shows "\<exists>b'. update_loop_t b ps = Some (Inr b') \<and>
           length (tree (sumtree b')) = 2 * n - 1 \<and>
           epsilon b' = epsilon b \<and> alpha_t b' = alpha_t b \<and>
           (\<forall>i. int n - 1 \<le> i \<longrightarrow> tree (sumtree b') ! nat i =
                 (case map_of (rev ps) i of
                    None \<Rightarrow> tree (sumtree b) ! nat i
                  | Some e \<Rightarrow> (\<bar>e\<bar> + epsilon b) powr alpha_t b)) \<and>
           max_priority_t b' =
             Max (insert (max_priority_t b)
                    ((\<lambda>(i, e). (\<bar>e\<bar> + epsilon b) powr alpha_t b) ` set ps))"
  using assms
proof (induction ps arbitrary: b)
  case Nil
  then show ?case by simp
next
  case (Cons a ps)
  obtain i0 e0 where a: "a = (i0, e0)" by (cases a)
  let ?f = "\<lambda>e :: real. (\<bar>e\<bar> + epsilon b) powr alpha_t b"
  define k where "k = nat i0"
  have i0: "int n - 1 \<le> i0" "i0 \<le> 2 * int n - 2" using Cons.prems(4) a by auto
  have k: "i0 = int k" "n - 1 \<le> k" "k < 2 * n - 1" using i0 Cons.prems(1) by (auto simp: k_def)
  have pw: "np_pow (\<bar>e0\<bar> + epsilon b) (alpha_t b) = Some (?f e0)"
    using Cons.prems(3) by (intro np_pow_pos) simp
  from update_leaf[OF Cons.prems(1,2) k(2,3), of "?f e0"] obtain t' where
    t': "update (int k) (?f e0) (sumtree b) = Some (Inr ((sumtree b)\<lparr>tree := t'\<rparr>))"
        "length t' = 2 * n - 1" "t' ! k = ?f e0"
        "\<And>j. n - 1 \<le> j \<Longrightarrow> j \<noteq> k \<Longrightarrow> t' ! j = tree (sumtree b) ! j"
    by blast
  define b1 where "b1 = b\<lparr>sumtree := (sumtree b)\<lparr>tree := t'\<rparr>,
                          max_priority_t := max (max_priority_t b) (?f e0)\<rparr>"
  have step: "update_loop_t b (a # ps) = update_loop_t b1 ps"
    using pw t'(1) by (simp add: a k(1) b1_def)
  have b1: "length (tree (sumtree b1)) = 2 * n - 1" "epsilon b1 = epsilon b" "alpha_t b1 = alpha_t b"
    "0 < epsilon b1"
    using t'(2) Cons.prems(3) by (simp_all add: b1_def)
  have "list_all (\<lambda>(i, e). int n - 1 \<le> i \<and> i \<le> 2 * int n - 2) ps" using Cons.prems(4) by simp
  from Cons.IH[OF Cons.prems(1) b1(1) b1(4) this] obtain b' where
    b': "update_loop_t b1 ps = Some (Inr b')" "length (tree (sumtree b')) = 2 * n - 1"
        "epsilon b' = epsilon b" "alpha_t b' = alpha_t b"
        "\<And>i. int n - 1 \<le> i \<Longrightarrow> tree (sumtree b') ! nat i =
                 (case map_of (rev ps) i of None \<Rightarrow> tree (sumtree b1) ! nat i | Some e \<Rightarrow> ?f e)"
        "max_priority_t b' = Max (insert (max_priority_t b1) ((\<lambda>(i, e). ?f e) ` set ps))"
    unfolding b1(2,3) by blast
  have nth: "tree (sumtree b') ! nat i =
        (case map_of (rev (a # ps)) i of None \<Rightarrow> tree (sumtree b) ! nat i | Some e \<Rightarrow> ?f e)"
    if "int n - 1 \<le> i" for i
  proof (cases "map_of (rev ps) i")
    case (Some e)
    then show ?thesis using b'(5)[OF that] by (simp add: a map_add_def)
  next
    case None
    have "tree (sumtree b1) ! nat i = (if i = i0 then ?f e0 else tree (sumtree b) ! nat i)"
    proof (cases "i = i0")
      case True
      then show ?thesis using t'(3) by (simp add: b1_def k_def)
    next
      case False
      have "n - 1 \<le> nat i" "nat i \<noteq> k" using that False k(1) Cons.prems(1) by auto
      then show ?thesis using t'(4) False by (simp add: b1_def)
    qed
    then show ?thesis using b'(5)[OF that] None by (simp add: a map_add_def)
  qed
  have "max_priority_t b' = Max (insert (max_priority_t b) ((\<lambda>(i, e). ?f e) ` set (a # ps)))"
    using b'(6) Max_insert_max[of "(\<lambda>(i, e). ?f e) ` set ps" "max_priority_t b" "?f e0"]
    by (simp add: b1_def a)
  then show ?case using step b'(1-4) nth by auto
qed

text \<open>
  Claim C7, amended. \<open>update_priorities(indices, td_errors)\<close> with valid indices. In the flat
  variant (indices in \<open>[0, capacity)\<close>) the call returns and every addressed priority
  is \<open>min(|e| + 1e-6, 1.0)\<close>, hence in \<open>[1e-6, 1]\<close>, for \<open>e\<close> the error of the last pair
  that addresses it. In the tree variant (leaf indices \<open>capacity - 1 .. 2 capacity - 2\<close>
  of a tree of capacity at least 2) the call returns and every addressed leaf is
  \<open>(|e| + epsilon) ** alpha\<close>. In both, \<open>max_priority\<close> is the maximum of its old value
  and the new priorities.
\<close>

theorem update_priorities_sets:
  "(length (priorities b) = capacity b \<and>
    list_all (\<lambda>i. 0 \<le> i \<and> i < int (capacity b)) indices \<longrightarrow>
      (\<exists>b'. PrioritizedReplayBuffer_update_priorities b indices errs = (None, b') \<and>
         (\<forall>i e. map_of (rev (zip indices errs)) i = Some e \<longrightarrow>
            priorities b' ! nat i = min (\<bar>e\<bar> + 1 / 1000000) 1 \<and>
            1 / 1000000 \<le> priorities b' ! nat i \<and> priorities b' ! nat i \<le> 1) \<and>
         max_priority b' =
           Max (insert (max_priority b)
                  ((\<lambda>(i, e). min (\<bar>e\<bar> + 1 / 1000000) 1) ` set (zip indices errs))))) \<and>
   (2 \<le> n \<and> length (tree (sumtree t)) = 2 * n - 1 \<and> 0 < epsilon t \<and>
    list_all (\<lambda>i. int n - 1 \<le> i \<and> i \<le> 2 * int n - 2) indices \<longrightarrow>
      (\<exists>t'. PERBufferSumTree_update_priorities t indices errs = Some (Inr t') \<and>
         (\<forall>i e. map_of (rev (zip indices errs)) i = Some e \<longrightarrow>
            tree (sumtree t') ! nat i = (\<bar>e\<bar> + epsilon t) powr alpha_t t) \<and>
         max_priority_t t' =
           Max (insert (max_priority_t t)
                  ((\<lambda>(i, e). (\<bar>e\<bar> + epsilon t) powr alpha_t t) ` set (zip indices errs)))))"
proof (intro conjI impI)
  assume h: "length (priorities b) = capacity b \<and>
    list_all (\<lambda>i. 0 \<le> i \<and> i < int (capacity b)) indices"
  let ?ps = "zip indices errs"
  have "list_all (\<lambda>(i, e). 0 \<le> i \<and> i < int (length (priorities b))) ?ps"
    using h by (auto simp: list_all_iff dest: set_zip_leftD)
  from update_loop_valid[OF this] obtain b' where
    b': "update_loop b ?ps = (None, b')"
        "\<And>i. 0 \<le> i \<Longrightarrow> priorities b' ! nat i =
                 (case map_of (rev ?ps) i of None \<Rightarrow> priorities b ! nat i
                  | Some e \<Rightarrow> min (\<bar>e\<bar> + 1 / 1000000) 1)"
        "max_priority b' =
           Max (insert (max_priority b) ((\<lambda>(i, e). min (\<bar>e\<bar> + 1 / 1000000) 1) ` set ?ps))"
    by blast
  have "priorities b' ! nat i = min (\<bar>e\<bar> + 1 / 1000000) 1 \<and>
        1 / 1000000 \<le> priorities b' ! nat i \<and> priorities b' ! nat i \<le> 1"
    if m: "map_of (rev ?ps) i = Some e" for i e
  proof -
    have "(i, e) \<in> set ?ps" using map_of_SomeD[OF m] by simp
    then have "i \<in> set indices" by (rule set_zip_leftD)
    then have "0 \<le> i" using h by (auto simp: list_all_iff)
    from b'(2)[OF this] m have "priorities b' ! nat i = min (\<bar>e\<bar> + 1 / 1000000) 1" by simp
    then show ?thesis by auto
  qed
  then show "\<exists>b'. PrioritizedReplayBuffer_update_priorities b indices errs = (None, b') \<and>
         (\<forall>i e. map_of (rev (zip indices errs)) i = Some e \<longrightarrow>
            priorities b' ! nat i = min (\<bar>e\<bar> + 1 / 1000000) 1 \<and>
            1 / 1000000 \<le> priorities b' ! nat i \<and> priorities b' ! nat i \<le> 1) \<and>
         max_priority b' =
           Max (insert (max_priority b)
                  ((\<lambda>(i, e). min (\<bar>e\<bar> + 1 / 1000000) 1) ` set (zip indices errs)))"
    using b'(1,3) unfolding PrioritizedReplayBuffer_update_priorities_def by blast
next
  assume h: "2 \<le> n \<and> length (tree (sumtree t)) = 2 * n - 1 \<and> 0 < epsilon t \<and>
    list_all (\<lambda>i. int n - 1 \<le> i \<and> i \<le> 2 * int n - 2) indices"
  let ?ps = "zip indices errs"
  have "list_all (\<lambda>(i, e). int n - 1 \<le> i \<and> i \<le> 2 * int n - 2) ?ps"
    using h by (auto simp: list_all_iff dest: set_zip_leftD)
  from update_loop_t_leaves[OF _ _ _ this, of t] h obtain t' where
    t': "update_loop_t t ?ps = Some (Inr t')"
        "\<And>i. int n - 1 \<le> i \<Longrightarrow> tree (sumtree t') ! nat i =
                 (case map_of (rev ?ps) i of None \<Rightarrow> tree (sumtree t) ! nat i
                  | Some e \<Rightarrow> (\<bar>e\<bar> + epsilon t) powr alpha_t t)"
        "max_priority_t t' =
           Max (insert (max_priority_t t) ((\<lambda>(i, e). (\<bar>e\<bar> + epsilon t) powr alpha_t t) ` set ?ps))"
    by blast
  have "tree (sumtree t') ! nat i = (\<bar>e\<bar> + epsilon t) powr alpha_t t"
    if m: "map_of (rev ?ps) i = Some e" for i e
  proof -
    have "(i, e) \<in> set ?ps" using map_of_SomeD[OF m] by simp
    then have "i \<in> set indices" by (rule set_zip_leftD)
    then have "int n - 1 \<le> i" using h by (auto simp: list_all_iff)
    from t'(2)[OF this] m show ?thesis by simp
  qed
  then show "\<exists>t'. PERBufferSumTree_update_priorities t indices errs = Some (Inr t') \<and>
         (\<forall>i e. map_of (rev (zip indices errs)) i = Some e \<longrightarrow>
            tree (sumtree t') ! nat i = (\<bar>e\<bar> + epsilon t) powr alpha_t t) \<and>
         max_priority_t t' =
           Max (insert (max_priority_t t)
                  ((\<lambda>(i, e). (\<bar>e\<bar> + epsilon t) powr alpha_t t) ` set (zip indices errs)))"
    using t'(1,3) unfolding PERBufferSumTree_update_priorities_def by blast
qed

text \<open>The theorem on a flat buffer and on a tree, both of capacity 4.\<close>

theorem update_priorities_sets_witness:
  "(\<exists>b'. PrioritizedReplayBuffer_update_priorities
            \<lparr>capacity = 4, slots = [(), (), (), ()], position = 0, size_b = 4,
             alpha = 6 / 10, priorities = [1, 1, 1, 1], max_priority = 1\<rparr>
            [0, 2, 0] [1 / 2, 3, 1 / 4] = (None, b') \<and>
          priorities b' ! 0 = 250001 / 1000000 \<and> priorities b' ! 2 = 1 \<and> max_priority b' = 1) \<and>
   (\<exists>t'. PERBufferSumTree_update_priorities
            \<lparr>sumtree = \<lparr>capacity_t = 4, tree = [4, 2, 2, 1, 1, 1, 1],
                        data = [Some (), Some (), Some (), Some ()], write_t = 0, n_entries = 4\<rparr>,
             alpha_t = 1, epsilon = 1 / 1000000, max_priority_t = 1\<rparr>
            [3, 5] [10, 0] = Some (Inr t') \<and>
          tree (sumtree t') ! 3 = 10000001 / 1000000 \<and> tree (sumtree t') ! 5 = 1 / 1000000 \<and>
          max_priority_t t' = 10000001 / 1000000)"
proof -
  let ?b = "\<lparr>capacity = 4, slots = [(), (), (), ()], position = 0, size_b = 4,
             alpha = 6 / 10, priorities = [1, 1, 1, 1 :: real], max_priority = 1\<rparr>"
  let ?t = "\<lparr>sumtree = \<lparr>capacity_t = 4, tree = [4, 2, 2, 1, 1, 1, 1],
                        data = [Some (), Some (), Some (), Some ()], write_t = 0, n_entries = 4\<rparr>,
             alpha_t = 1, epsilon = 1 / 1000000, max_priority_t = 1\<rparr>"
  note th = update_priorities_sets[of ?b "[3, 5]" "[10, 0]" 4 ?t]
  note tb = update_priorities_sets[of ?b "[0, 2, 0]" "[1 / 2, 3, 1 / 4]" 4 ?t]
  from tb obtain b' where
    b': "PrioritizedReplayBuffer_update_priorities ?b [0, 2, 0] [1 / 2, 3, 1 / 4] = (None, b')"
        "\<And>i e. map_of (rev (zip [0, 2, 0] [1 / 2, 3, 1 / 4 :: real])) i = Some e \<Longrightarrow>
            priorities b' ! nat i = min (\<bar>e\<bar> + 1 / 1000000) 1"
        "max_priority b' =
           Max (insert (max_priority ?b)
                  ((\<lambda>(i, e). min (\<bar>e\<bar> + 1 / 1000000) 1) ` set (zip [0, 2, 0 :: int] [1 / 2, 3, 1 / 4 :: real])))"
    by auto
  have p0: "priorities b' ! 0 = 250001 / 1000000" using b'(2)[of 0 "1 / 4"] by simp
  have p2: "priorities b' ! 2 = 1" using b'(2)[of 2 3] by simp
  have pm: "max_priority b' = 1" using b'(3) by simp
  from th obtain t' where
    t': "PERBufferSumTree_update_priorities ?t [3, 5] [10, 0] = Some (Inr t')"
        "\<And>i e. map_of (rev (zip [3, 5] [10, 0 :: real])) i = Some e \<Longrightarrow>
            tree (sumtree t') ! nat i = (\<bar>e\<bar> + epsilon ?t) powr alpha_t ?t"
        "max_priority_t t' =
           Max (insert (max_priority_t ?t)
                  ((\<lambda>(i, e). (\<bar>e\<bar> + epsilon ?t) powr alpha_t ?t) ` set (zip [3, 5 :: int] [10, 0 :: real])))"
    by auto
  have q3: "tree (sumtree t') ! 3 = 10000001 / 1000000" using t'(2)[of 3 10] by simp
  have q5: "tree (sumtree t') ! 5 = 1 / 1000000" using t'(2)[of 5 0] by simp
  have qm: "max_priority_t t' = 10000001 / 1000000" using t'(3) by simp
  show ?thesis using b'(1) p0 p2 pm t'(1) q3 q5 qm by blast
qed

text \<open>
  Claim C7 as written takes the valid indices of the tree variant to be those of
  \<open>[0, capacity)\<close>. On a tree of capacity 4, \<open>update_priorities([1], [10.0])\<close> returns,
  and it has written the internal node 1: the leaf of slot 1, node 4, keeps its
  priority 1, and node 1 is no longer the sum of its children, the nodes 3 and 4.
\<close>

theorem update_priorities_node_counterexample:
  "PERBufferSumTree_update_priorities
     \<lparr>sumtree = \<lparr>capacity_t = 4, tree = [4, 2, 2, 1, 1, 1, 1],
                 data = [Some (), Some (), Some (), Some ()], write_t = 0, n_entries = 4\<rparr>,
      alpha_t = 1, epsilon = 1 / 1000000, max_priority_t = 1\<rparr> [1] [10] =
     Some (Inr \<lparr>sumtree = \<lparr>capacity_t = 4,
                   tree = [12000001 / 1000000, 10000001 / 1000000, 2, 1, 1, 1, 1],
                   data = [Some (), Some (), Some (), Some ()], write_t = 0, n_entries = 4\<rparr>,
                alpha_t = 1, epsilon = 1 / 1000000, max_priority_t = 10000001 / 1000000\<rparr>) \<and>
   [12000001 / 1000000, 10000001 / 1000000, 2, 1, 1, 1, 1 :: real] ! 4 = 1 \<and>
   [12000001 / 1000000, 10000001 / 1000000, 2, 1, 1, 1, 1 :: real] ! 1 \<noteq>
     [12000001 / 1000000, 10000001 / 1000000, 2, 1, 1, 1, 1 :: real] ! 3 +
     [12000001 / 1000000, 10000001 / 1000000, 2, 1, 1, 1, 1 :: real] ! 4 \<and>
   \<not> sum_inv 4 [12000001 / 1000000, 10000001 / 1000000, 2, 1, 1, 1, 1]"
proof -
  have "\<not> sum_inv 4 [12000001 / 1000000, 10000001 / 1000000, 2, 1, 1, 1, 1]"
    unfolding sum_inv_def by (auto intro!: exI[of _ 1])
  then show ?thesis
    by (simp add: PERBufferSumTree_update_priorities_def np_pow_def update_def np_index_def
        propagate.simps Let_def)
qed

subsection \<open>Indices out of range\<close>







subsection \<open>The running maximum\<close>

lemma assign_const:
  "length vs = length idx \<Longrightarrow> list_all (\<lambda>v. v = c) vs \<Longrightarrow>
     length (assign arr idx vs) = length arr \<and>
     (\<forall>i < length arr. assign arr idx vs ! i = (if i \<in> set idx then c else arr ! i))"
  unfolding assign_def
proof (induction idx arbitrary: vs arr)
  case Nil
  then show ?case by simp
next
  case (Cons j idx)
  then obtain v vs' where vs: "vs = v # vs'" by (cases vs) auto
  have v: "v = c" "length vs' = length idx" "list_all (\<lambda>v. v = c) vs'" using Cons.prems vs by auto
  from Cons.IH[OF v(2,3), of "arr[j := v]"] show ?case
    by (auto simp: vs v(1) nth_list_update)
qed

lemma flat_inv_init: "flat_inv (PrioritizedReplayBuffer_init c a z)"
  by (simp add: flat_inv_def PrioritizedReplayBuffer_init_def)

lemma flat_push_result:
  assumes "PrioritizedReplayBuffer_push b batch = Inr b'"
  shows "0 < capacity b \<and> capacity b' = capacity b \<and> max_priority b' = max_priority b \<and>
         position b' = (position b + length batch) mod capacity b \<and>
         size_b b' = min (size_b b + length batch) (capacity b) \<and>
         priorities b' = assign (priorities b) (push_indices (length batch) (position b) (capacity b))
                           (replicate (length batch) (max_priority b))"
  using assms
  by (auto simp: PrioritizedReplayBuffer_push_def ReplayBuffer_push_def Let_def split: if_splits)

lemma flat_inv_push:
  assumes inv: "flat_inv b" and p: "PrioritizedReplayBuffer_push b batch = Inr b'"
  shows "flat_inv b'"
proof -
  let ?n = "length batch"
  let ?idx = "push_indices ?n (position b) (capacity b)"
  note r = flat_push_result[OF p]
  have len: "length (priorities b) = capacity b" and sz: "size_b b \<le> capacity b"
    and pos: "size_b b < capacity b \<Longrightarrow> position b = size_b b"
    and mx: "1 \<le> max_priority b" and old: "\<And>i. i < size_b b \<Longrightarrow> 0 < priorities b ! i"
    using inv by (auto simp: flat_inv_def)
  have a: "length (priorities b') = length (priorities b)"
    "\<And>i. i < capacity b \<Longrightarrow>
       priorities b' ! i = (if i \<in> set ?idx then max_priority b else priorities b ! i)"
    using assign_const[of "replicate ?n (max_priority b)" ?idx "max_priority b" "priorities b"] r
    by (simp_all add: push_indices_def list_all_iff len)
  have "0 < priorities b' ! i" if i: "i < size_b b'" for i
  proof (cases "i < size_b b")
    case True
    then show ?thesis using a(2)[of i] old[OF True] mx sz by auto
  next
    case False
    have i2: "i < size_b b + ?n" "i < capacity b" using i r by auto
    then have "size_b b < capacity b" using False by simp
    then have ps: "position b = size_b b" by (rule pos)
    have "i - size_b b < ?n" using i2 False by simp
    moreover have "(i - size_b b + position b) mod capacity b = i" using ps False i2 by simp
    ultimately have "i \<in> set ?idx" unfolding push_indices_def by force
    then show ?thesis using a(2)[of i] i2 mx by simp
  qed
  moreover have "size_b b' < capacity b' \<longrightarrow> position b' = size_b b'"
  proof
    assume "size_b b' < capacity b'"
    then have lt: "size_b b + ?n < capacity b" using r by auto
    then have "position b = size_b b" using pos by simp
    then show "position b' = size_b b'" using r lt by simp
  qed
  ultimately show ?thesis using r a(1) len mx by (auto simp: flat_inv_def)
qed

lemma update_loop_inv:
  assumes "flat_inv b"
  shows "flat_inv (snd (update_loop b ps)) \<and> max_priority b \<le> max_priority (snd (update_loop b ps))"
  using assms
proof (induction ps arbitrary: b)
  case Nil
  then show ?case by simp
next
  case (Cons a ps)
  obtain i e where a: "a = (i, e)" by (cases a)
  show ?case
  proof (cases "np_index (length (priorities b)) i")
    case None
    then show ?thesis using Cons.prems by (simp add: a Let_def)
  next
    case (Some j)
    let ?b = "b\<lparr>priorities := (priorities b)[j := min (\<bar>e\<bar> + 1 / 1000000) 1],
                 max_priority := max (max_priority b) (min (\<bar>e\<bar> + 1 / 1000000) 1)\<rparr>"
    have v: "0 < min (\<bar>e\<bar> + 1 / 1000000) (1 :: real)" by simp
    have "0 < (priorities b)[j := min (\<bar>e\<bar> + 1 / 1000000) 1] ! i" if "i < size_b b" for i
    proof (cases "i = j")
      case True
      have "i < length (priorities b)" using that Cons.prems by (simp add: flat_inv_def)
      then show ?thesis using v True by simp
    next
      case False
      then show ?thesis using that Cons.prems by (simp add: flat_inv_def)
    qed
    moreover have "1 \<le> max (max_priority b) (min (\<bar>e\<bar> + 1 / 1000000) 1)"
      using Cons.prems by (simp add: flat_inv_def le_max_iff_disj)
    ultimately have "flat_inv ?b" using Cons.prems by (simp add: flat_inv_def)
    from Cons.IH[OF this] show ?thesis using Some by (simp add: a Let_def)
  qed
qed

lemma flat_reachable_inv: "flat_reachable b \<Longrightarrow> flat_inv b"
proof (induction rule: flat_reachable.induct)
  case (flat_init c a z)
  then show ?case by (rule flat_inv_init)
next
  case (flat_push b batch b')
  then show ?case by (auto intro: flat_inv_push)
next
  case (flat_update b indices errs e b')
  then show ?case
    using update_loop_inv[of b "zip indices errs"]
    by (simp add: PrioritizedReplayBuffer_update_priorities_def)
qed

lemma sum_list_pos:
  fixes f :: "'b \<Rightarrow> real"
  assumes "xs \<noteq> []" and "\<And>x. x \<in> set xs \<Longrightarrow> 0 < f x"
  shows "0 < sum_list (map f xs)"
  using assms
proof (induction xs)
  case Nil
  then show ?case by simp
next
  case (Cons x xs)
  show ?case
  proof (cases "xs = []")
    case True
    then show ?thesis using Cons.prems(2)[of x] by simp
  next
    case False
    have "0 < sum_list (map f xs)" using Cons.IH[OF False] Cons.prems(2) by simp
    moreover have "0 < f x" using Cons.prems(2) by simp
    ultimately show ?thesis by simp
  qed
qed

lemma flat_inv_probs:
  assumes inv: "flat_inv b" and pos: "0 < size_b b"
  shows "0 < sum_list (map the (powers b)) \<and>
         PrioritizedReplayBuffer_probs b =
           Some (map (\<lambda>p. p / sum_list (map the (powers b))) (map the (powers b)))"
proof -
  let ?pr = "take (size_b b) (priorities b)"
  have len: "length ?pr = size_b b" using inv by (simp add: flat_inv_def)
  have ppos: "\<And>p. p \<in> set ?pr \<Longrightarrow> 0 < p"
    using inv by (auto simp: flat_inv_def in_set_conv_nth)
  have pw: "powers b = map (\<lambda>p. Some (p powr alpha b)) ?pr"
    unfolding powers_def using ppos by (intro map_cong) (auto simp: np_pow_def)
  have none: "\<not> list_ex (\<lambda>w. w = None) (powers b)" by (auto simp: pw list_ex_iff)
  have the: "map the (powers b) = map (\<lambda>p. p powr alpha b) ?pr" by (simp add: pw comp_def)
  have ne: "?pr \<noteq> []" using len pos by auto
  have "0 < sum_list (map (\<lambda>p. p powr alpha b) ?pr)"
    using ne ppos by (intro sum_list_pos) auto
  then have s: "0 < sum_list (map the (powers b))" by (simp add: the)
  then show ?thesis using none by (simp add: PrioritizedReplayBuffer_probs_def Let_def)
qed

lemma propagate_returns_pos:
  assumes "propagate idx c t = Some (Inr t')"
  shows "1 \<le> idx"
proof -
  have "\<forall>t'. r = Inr t' \<longrightarrow> 1 \<le> idx" if "propagate idx c t = Some r" for r
  proof (rule propagate.raw_induct[where P = "\<lambda>idx c t r. \<forall>t'. r = Inr t' \<longrightarrow> 1 \<le> idx", OF _ that])
    fix f :: "int \<Rightarrow> real \<Rightarrow> real list \<Rightarrow> (error + real list) option" and idx c t r
    assume IH: "\<And>idx c t r. f idx c t = Some r \<Longrightarrow> \<forall>t'. r = Inr t' \<longrightarrow> 1 \<le> idx"
      and eq: "(let parent = (idx - 1) div 2 in
        case np_index (length t) parent of
          None \<Rightarrow> Some (Inl IndexError)
        | Some j \<Rightarrow>
            (let tree' = t[j := t ! j + c] in
             if parent \<noteq> 0 then f parent c tree' else Some (Inr tree'))) = Some r"
    show "\<forall>t'. r = Inr t' \<longrightarrow> 1 \<le> idx"
    proof (intro allI impI)
      fix t' assume r: "r = Inr t'"
      show "1 \<le> idx"
      proof (cases "(idx - 1) div 2 = 0")
        case True
        then show ?thesis by linarith
      next
        case False
        from eq r obtain j where "f ((idx - 1) div 2) c (t[j := t ! j + c]) = Some (Inr t')"
          using False by (auto simp: Let_def split: option.splits)
        from IH[OF this] have "1 \<le> (idx - 1) div 2" by simp
        then show ?thesis by linarith
      qed
    qed
  qed
  from this[OF assms] show ?thesis by simp
qed

lemma update_result:
  assumes "update idx p s = Some (Inr s')"
  shows "1 \<le> idx \<and> tree s' ! nat idx = p \<and> length (tree s') = length (tree s) \<and>
         s' = s\<lparr>tree := tree s'\<rparr>"
proof -
  from assms obtain j where j: "np_index (length (tree s)) idx = Some j"
    by (auto simp: update_def split: option.splits)
  from assms j obtain t' where "propagate idx (p - tree s ! j) ((tree s)[j := p]) = Some (Inr t')"
    by (auto simp: update_def Let_def split: option.splits sum.splits)
  then have i1: "1 \<le> idx" by (rule propagate_returns_pos)
  then have lt: "idx < int (length (tree s))" using j by (auto simp: np_index_def split: if_splits)
  define k where "k = nat idx"
  have k: "idx = int k" "1 \<le> k" "k < length (tree s)" using i1 lt by (auto simp: k_def)
  from update_returns[OF k(2,3), of p] obtain t2 where
    t2: "update (int k) p s = Some (Inr (s\<lparr>tree := t2\<rparr>))" "length t2 = length (tree s)" "t2 ! k = p"
    by blast
  have "s' = s\<lparr>tree := t2\<rparr>" using assms t2(1) k(1) by simp
  then show ?thesis using t2 i1 k by simp
qed

lemma update_loop_t_max:
  assumes "update_loop_t b ps = Some (Inr b')"
  shows "max_priority_t b \<le> max_priority_t b'"
  using assms
proof (induction ps arbitrary: b)
  case Nil
  then show ?case by simp
next
  case (Cons a ps)
  obtain i e where a: "a = (i, e)" by (cases a)
  from Cons.prems obtain q t where
    q: "np_pow (\<bar>e\<bar> + epsilon b) (alpha_t b) = Some q"
    and st: "update_loop_t (b\<lparr>sumtree := t, max_priority_t := max (max_priority_t b) q\<rparr>) ps
               = Some (Inr b')"
    by (auto simp: a split: option.splits sum.splits)
  from Cons.IH[OF st] show ?case by simp
qed

lemma tree_push_result:
  assumes "PERBufferSumTree_push b d = Some (Inr b')"
  shows "max_priority_t b' = max_priority_t b \<and>
         tree (sumtree b') ! (write_t (sumtree b) + capacity_t (sumtree b) - 1) = max_priority_t b"
proof -
  let ?s = "sumtree b"
  let ?idx = "int (write_t ?s) + int (capacity_t ?s) - 1"
  from assms obtain s' where
    u: "update ?idx (max_priority_t b) (?s\<lparr>data := (data ?s)[write_t ?s := Some d]\<rparr>) = Some (Inr s')"
    and b': "b' = b\<lparr>sumtree := s'\<lparr>write_t := (write_t ?s + 1) mod capacity_t ?s,
                                      n_entries := min (n_entries ?s + 1) (capacity_t ?s)\<rparr>\<rparr>"
    by (auto simp: PERBufferSumTree_push_def add_def Let_def split: option.splits sum.splits if_splits)
  from update_result[OF u] have "1 \<le> ?idx" "tree s' ! nat ?idx = max_priority_t b" by auto
  moreover have "nat ?idx = write_t ?s + capacity_t ?s - 1" by linarith
  ultimately show ?thesis using b' by simp
qed

lemma tree_reachable_max: "tree_reachable b \<Longrightarrow> 1 \<le> max_priority_t b"
proof (induction rule: tree_reachable.induct)
  case (tree_init n a b)
  then show ?case by (auto simp: PERBufferSumTree_init_def split: sum.splits)
next
  case (tree_push b d b')
  then show ?case using tree_push_result[of b d b'] by simp
next
  case (tree_update b indices errs b')
  then show ?case
    using update_loop_t_max[of b "zip indices errs" b']
    by (simp add: PERBufferSumTree_update_priorities_def)
qed

subsection \<open>Importance weights\<close>

lemma Max_scaled:
  fixes w :: "real list"
  assumes "w \<noteq> []" and "0 < d"
  shows "Max (set (map (\<lambda>x. x / d) w)) = Max (set w) / d"
proof -
  have "mono (\<lambda>x :: real. x / d)" using assms(2) by (auto simp: mono_def divide_right_mono)
  from mono_Max_commute[OF this, of "set w"] assms(1) show ?thesis by simp
qed

lemma Max_pos:
  fixes w :: "real list"
  assumes "w \<noteq> []" and "list_all (\<lambda>x. 0 < x) w"
  shows "0 < Max (set w)"
proof -
  have "Max (set w) \<in> set w" using assms(1) by (intro Max_in) auto
  then show ?thesis using assms(2) by (auto simp: list_all_iff)
qed

lemma powers_defined:
  assumes "list_all (\<lambda>p. 0 < p) ps" and "0 < c"
  shows "map (\<lambda>p. np_pow (c * p) a) ps = map (\<lambda>p. Some ((c * p) powr a)) ps"
  using assms by (intro map_cong) (auto simp: list_all_iff np_pow_def)

lemma weights_result:
  assumes w: "weights k ps beta = Inr ws" and k: "0 < k" and pos: "list_all (\<lambda>p. 0 < p) ps"
  defines "m \<equiv> Max (set (map (\<lambda>p. (real k * p) powr (- beta)) ps))"
  shows "ps \<noteq> [] \<and> 0 < m \<and> ws = map (\<lambda>p. (real k * p) powr (- beta) / (m + 1 / 100000000)) ps \<and>
         list_all (\<lambda>x. 0 < x) ws \<and> Max (set ws) = m / (m + 1 / 100000000)"
proof -
  let ?w = "map (\<lambda>p. (real k * p) powr (- beta)) ps"
  have ne: "ps \<noteq> []" using w by (auto simp: weights_def Let_def split: if_splits)
  have raw: "map (\<lambda>p. np_pow (real k * p) (- beta)) ps = map (\<lambda>p. Some ((real k * p) powr (- beta))) ps"
    using pos k by (intro powers_defined) auto
  have the: "map the (map (\<lambda>p. Some ((real k * p) powr (- beta))) ps) = ?w" by (simp add: comp_def)
  have wpos: "list_all (\<lambda>x. 0 < x) ?w" using pos k by (auto simp: list_all_iff)
  have m: "0 < m" unfolding m_def using ne wpos by (intro Max_pos) auto
  then have d: "0 < m + 1 / 100000000" by simp
  have ws: "ws = map (\<lambda>x. x / (m + 1 / 100000000)) ?w"
    using w ne d unfolding weights_def Let_def raw the m_def[symmetric]
    by (auto simp: list_ex_iff split: if_splits)
  have "Max (set ws) = m / (m + 1 / 100000000)"
    unfolding ws m_def using ne d[unfolded m_def] by (intro Max_scaled) auto
  moreover have "list_all (\<lambda>x. 0 < x) ws"
    unfolding ws using wpos d by (auto simp: list_all_iff)
  moreover have "ws = map (\<lambda>p. (real k * p) powr (- beta) / (m + 1 / 100000000)) ps"
    unfolding ws by (simp add: comp_def)
  ultimately show ?thesis using ne m by blast
qed

lemma get_priority: "get s x = Inr (idx, p, d) \<Longrightarrow> p = tree s ! idx"
  by (auto simp: get_def Let_def split: if_splits option.splits)

lemma collect_priorities:
  assumes "collect s n draws acc = Some (Inr es)"
    and "list_all (\<lambda>(i, p, d). p = tree s ! i) acc"
  shows "list_all (\<lambda>(i, p, d). p = tree s ! i) es \<and> (n \<noteq> 0 \<longrightarrow> es \<noteq> [] \<and> n \<le> length es)"
  using assms
proof (induction draws arbitrary: acc)
  case Nil
  then show ?case by (auto split: if_splits)
next
  case (Cons x xs)
  show ?case
  proof (cases "length acc < n")
    case False
    then show ?thesis using Cons.prems by auto
  next
    case True
    then obtain idx p d where g: "get s x = Inr (idx, p, d)"
      using Cons.prems(1) by (cases "get s x") auto
    show ?thesis
    proof (cases d)
      case None
      then show ?thesis using Cons.IH[of acc] Cons.prems True g by simp
    next
      case (Some v)
      have "list_all (\<lambda>(i, p, d). p = tree s ! i) (acc @ [(idx, p, v)])"
        using Cons.prems(2) get_priority[OF g] by simp
      then show ?thesis using Cons.IH[of "acc @ [(idx, p, v)]"] Cons.prems(1) True g Some by simp
    qed
  qed
qed

subsection \<open>The calls of the generator\<close>

lemma draw_raises: "ReplayBuffer_draw b n r \<longleftrightarrow> r = Inl TypeError"
  by (simp add: ReplayBuffer_draw_def ReplayBuffer_randint_def np_random_randint_def)

lemma weighted_draw_raises: "PrioritizedReplayBuffer_draw b n r \<longleftrightarrow> r = Inl TypeError"
  by (simp add: PrioritizedReplayBuffer_draw_def PrioritizedReplayBuffer_randint_def
      np_random_randint_def)

lemma sample_raises:
  "ReplayBuffer_draw b n r \<Longrightarrow> ReplayBuffer_sample b r = Inl TypeError"
  by (simp add: draw_raises ReplayBuffer_sample_def)

lemma weighted_sample_raises:
  "PrioritizedReplayBuffer_draw b n r \<Longrightarrow> PrioritizedReplayBuffer_sample b beta r = Inl TypeError"
  by (simp add: weighted_draw_raises PrioritizedReplayBuffer_sample_def)

lemma spec_draw_below_last:
  assumes "spec_draw (low (ReplayBuffer_randint b n)) (high (ReplayBuffer_randint b n)) n p (Inr xs)"
  shows "list_all (\<lambda>x. 0 \<le> x \<and> x < int (size_b b) - 1) xs"
  using assms by (simp add: ReplayBuffer_randint_def spec_draw_def is_draw_def)

lemma upto_0_2: "[0 .. 2 :: int] = [0, 1, 2]"
  by (simp add: upto.simps)

text \<open>
  Claim C3 at a full buffer of capacity 4. The claim: \<open>sample(batch_size)\<close> returns
  \<open>batch_size\<close> distinct indices of \<open>[0, occupied_count)\<close>, and index
  \<open>occupied_count - 1\<close> can be drawn. The code calls \<open>randint\<close> with the keyword
  \<open>replace\<close> (and \<open>p\<close>), so the call raises \<open>TypeError\<close> and \<open>sample\<close> returns no
  index at all. The upper bound that the call passes is \<open>occupied_count - 1 = 3\<close>,
  exclusive: also with the draw that the spec describes for the call, a batch of 4
  cannot be drawn and the index 3 is never drawn, by the uniform sampler and by the
  prioritized one.
\<close>

theorem sample_excludes_newest:
  "ReplayBuffer_draw \<lparr>capacity = 4, slots = [10, 11, 12, 13 :: nat], position = 0, size_b = 4\<rparr> 4
     (Inl TypeError) \<and>
   \<not> ReplayBuffer_draw \<lparr>capacity = 4, slots = [10, 11, 12, 13 :: nat], position = 0, size_b = 4\<rparr> 4
     (Inr [0, 1, 2, 3]) \<and>
   ReplayBuffer_sample \<lparr>capacity = 4, slots = [10, 11, 12, 13 :: nat], position = 0, size_b = 4\<rparr>
     (Inl TypeError) = Inl TypeError \<and>
   \<not> ReplayBuffer_draw \<lparr>capacity = 4, slots = [10, 11, 12, 13 :: nat], position = 0, size_b = 4\<rparr> 1
     (Inr [3]) \<and>
   \<not> PrioritizedReplayBuffer_draw
       \<lparr>capacity = 4, slots = [10, 11, 12, 13 :: nat], position = 0, size_b = 4,
        alpha = 1, priorities = [1, 1, 1, 1], max_priority = 1\<rparr> 1 (Inr [3]) \<and>
   high (ReplayBuffer_randint
           \<lparr>capacity = 4, slots = [10, 11, 12, 13 :: nat], position = 0, size_b = 4\<rparr> 4) = 3 \<and>
   high (PrioritizedReplayBuffer_randint
           \<lparr>capacity = 4, slots = [10, 11, 12, 13 :: nat], position = 0, size_b = 4,
            alpha = 1, priorities = [1, 1, 1, 1], max_priority = 1\<rparr> 1) = 3 \<and>
   spec_draw 0 3 4 None (Inl ValueError) \<and>
   \<not> spec_draw 0 3 4 None (Inr [0, 1, 2, 3]) \<and>
   \<not> spec_draw 0 3 1 None (Inr [3]) \<and>
   \<not> spec_draw 0 3 1 (Some [1 / 4, 1 / 4, 1 / 4, 1 / 4]) (Inr [3])"
  by (simp add: draw_raises weighted_draw_raises ReplayBuffer_sample_def ReplayBuffer_randint_def
      PrioritizedReplayBuffer_randint_def spec_draw_def is_draw_def eligible_def upto_0_2)

lemma sample_never_asserts:
  "r \<noteq> Inl AssertionError \<Longrightarrow> ReplayBuffer_sample b r \<noteq> Inl AssertionError"
  by (auto simp: ReplayBuffer_sample_def split: sum.splits option.splits)

text \<open>
  Claim C4 at two stored transitions and a batch of 3. The claim: every sampler fails
  with the error of insufficient data. \<open>PERBufferSumTree.sample\<close> does, by its
  assertion. \<open>ReplayBuffer.sample\<close> and \<open>PrioritizedReplayBuffer.sample\<close> compare nothing
  with the occupancy: they call the generator, and the error is the \<open>TypeError\<close> of that
  call.
\<close>

theorem sample_unchecked:
  "ReplayBuffer_draw \<lparr>capacity = 4, slots = [10, 11, 0, 0 :: nat], position = 2, size_b = 2\<rparr> 3
     (Inl TypeError) \<and>
   \<not> ReplayBuffer_draw \<lparr>capacity = 4, slots = [10, 11, 0, 0 :: nat], position = 2, size_b = 2\<rparr> 3
     (Inl AssertionError) \<and>
   ReplayBuffer_sample \<lparr>capacity = 4, slots = [10, 11, 0, 0 :: nat], position = 2, size_b = 2\<rparr>
     (Inl TypeError) = Inl TypeError \<and>
   PrioritizedReplayBuffer_draw
     \<lparr>capacity = 4, slots = [10, 11, 0, 0 :: nat], position = 2, size_b = 2,
      alpha = 1, priorities = [1, 1, 0, 0], max_priority = 1\<rparr> 3 (Inl TypeError) \<and>
   \<not> PrioritizedReplayBuffer_draw
     \<lparr>capacity = 4, slots = [10, 11, 0, 0 :: nat], position = 2, size_b = 2,
      alpha = 1, priorities = [1, 1, 0, 0], max_priority = 1\<rparr> 3 (Inl AssertionError) \<and>
   PrioritizedReplayBuffer_sample
     \<lparr>capacity = 4, slots = [10, 11, 0, 0 :: nat], position = 2, size_b = 2,
      alpha = 1, priorities = [1, 1, 0, 0], max_priority = 1\<rparr> (4 / 10) (Inl TypeError) =
     Inl TypeError \<and>
   PERBufferSumTree_sample
     \<lparr>sumtree = \<lparr>capacity_t = 4, tree = [2, 2, 0, 1, 1, 0, 0],
                 data = [Some (10 :: nat), Some 11, None, None], write_t = 2, n_entries = 2\<rparr>,
      alpha_t = 1, epsilon = 1 / 1000000, max_priority_t = 1\<rparr> 3 (4 / 10) [] =
     Some (Inl AssertionError)"
  by (simp add: draw_raises weighted_draw_raises ReplayBuffer_sample_def
      PrioritizedReplayBuffer_sample_def PERBufferSumTree_sample_def)

subsection \<open>Reachable tree buffers\<close>

lemma update_frame:
  assumes "update idx p s = Some (Inr s')"
  shows "1 \<le> idx \<and> idx < int (length (tree s)) \<and> length (tree s') = length (tree s) \<and>
         s' = s\<lparr>tree := tree s'\<rparr> \<and> tree s' ! nat idx = p \<and>
         (\<forall>j. (nat idx - 1) div 2 < j \<longrightarrow> j \<noteq> nat idx \<longrightarrow> tree s' ! j = tree s ! j)"
proof -
  from update_result[OF assms] have i1: "1 \<le> idx" by simp
  from assms obtain j where j: "np_index (length (tree s)) idx = Some j"
    by (auto simp: update_def split: option.splits)
  have lt: "idx < int (length (tree s))" using j i1 by (auto simp: np_index_def split: if_splits)
  define k where "k = nat idx"
  have k: "idx = int k" "1 \<le> k" "k < length (tree s)" using i1 lt by (auto simp: k_def)
  from update_returns[OF k(2,3), of p] obtain t2 where
    t2: "update (int k) p s = Some (Inr (s\<lparr>tree := t2\<rparr>))" "length t2 = length (tree s)" "t2 ! k = p"
        "\<forall>j. (k - 1) div 2 < j \<longrightarrow> j \<noteq> k \<longrightarrow> t2 ! j = tree s ! j"
    by blast
  have "s' = s\<lparr>tree := t2\<rparr>" using assms t2(1) k(1) by simp
  then show ?thesis using t2 i1 lt k by simp
qed

lemma tree_inv_init:
  assumes "PERBufferSumTree_init n a = Inr b"
  shows "tree_inv b"
  using assms
  by (auto simp: PERBufferSumTree_init_def SumTree_init_def tree_inv_def split: if_splits)

lemma tree_push_returns:
  assumes inv: "tree_inv b" and n: "2 \<le> capacity_t (sumtree b)"
  shows "\<exists>b'. PERBufferSumTree_push b d = Some (Inr b')"
proof -
  let ?s = "sumtree b"
  let ?n = "capacity_t ?s"
  let ?s1 = "?s\<lparr>data := (data ?s)[write_t ?s := Some d]\<rparr>"
  let ?k = "write_t ?s + ?n - 1"
  have w: "write_t ?s < length (data ?s)" and len: "length (tree ?s) = 2 * ?n - 1"
    and wn: "write_t ?s < ?n"
    using inv by (auto simp: tree_inv_def)
  have k: "1 \<le> ?k" "?k < length (tree ?s1)" using n wn len by auto
  have eq: "int ?k = int (write_t ?s) + int ?n - 1" using n by simp
  from update_returns[OF k, of "max_priority_t b"] obtain t' where
    "update (int ?k) (max_priority_t b) ?s1 = Some (Inr (?s1\<lparr>tree := t'\<rparr>))" by blast
  then have u: "update (int (write_t ?s) + int ?n - 1) (max_priority_t b) ?s1 =
      Some (Inr (?s1\<lparr>tree := t'\<rparr>))"
    unfolding eq .
  have c: "capacity_t ?s \<noteq> 0" using n by simp
  show ?thesis
    unfolding PERBufferSumTree_push_def add_def Let_def using w u c by simp
qed

lemma tree_push_diverges:
  assumes inv: "tree_inv b" and n: "capacity_t (sumtree b) = 1"
  shows "PERBufferSumTree_push b d = None"
proof -
  let ?s = "sumtree b"
  have w: "write_t ?s = 0" "length (data ?s) = 1" "tree ?s \<noteq> []"
    using inv n by (auto simp: tree_inv_def)
  have "update 0 (max_priority_t b) (?s\<lparr>data := (data ?s)[0 := Some d]\<rparr>) = None"
    using w(3) by (intro update_root_diverges) simp
  then show ?thesis using w n by (simp add: PERBufferSumTree_push_def add_def Let_def)
qed

lemma tree_inv_push:
  assumes inv: "tree_inv b" and p: "PERBufferSumTree_push b d = Some (Inr b')"
  shows "tree_inv b'"
proof -
  let ?s = "sumtree b"
  let ?n = "capacity_t ?s"
  let ?s1 = "?s\<lparr>data := (data ?s)[write_t ?s := Some d]\<rparr>"
  let ?idx = "int (write_t ?s) + int ?n - 1"
  have n1: "1 \<le> ?n" and len: "length (tree ?s) = 2 * ?n - 1" and dl: "length (data ?s) = ?n"
    and wn: "write_t ?s < ?n" and eps: "0 < epsilon b" and mx: "1 \<le> max_priority_t b"
    and pos: "\<And>j. j < ?n \<Longrightarrow> data ?s ! j \<noteq> None \<Longrightarrow> 0 < tree ?s ! (?n - 1 + j)"
    using inv by (auto simp: tree_inv_def)
  from p obtain s' where
    u: "update ?idx (max_priority_t b) ?s1 = Some (Inr s')"
    and b': "b' = b\<lparr>sumtree := s'\<lparr>write_t := (write_t ?s + 1) mod ?n,
                                      n_entries := min (n_entries ?s + 1) ?n\<rparr>\<rparr>"
    by (auto simp: PERBufferSumTree_push_def add_def Let_def split: option.splits sum.splits if_splits)
  note f = update_frame[OF u]
  have k: "nat ?idx = ?n - 1 + write_t ?s" using n1 by linarith
  have s': "s' = ?s1\<lparr>tree := tree s'\<rparr>" using f by simp
  have fields: "capacity_t s' = ?n" "data s' = (data ?s)[write_t ?s := Some d]"
    by (subst s', simp)+
  have tl: "length (tree s') = 2 * ?n - 1" using f len by simp
  have leaf: "0 < tree s' ! (?n - 1 + j)" if j: "j < ?n" "data s' ! j \<noteq> None" for j
  proof (cases "j = write_t ?s")
    case True
    then show ?thesis using f k mx by simp
  next
    case False
    have par: "(nat ?idx - 1) div 2 < ?n - 1 + j"
    proof -
      have "nat ?idx \<le> 2 * ?n - 2" using k wn by simp
      then have "(nat ?idx - 1) div 2 < ?n - 1" using f by linarith
      then show ?thesis by simp
    qed
    have ne: "?n - 1 + j \<noteq> nat ?idx" using False k by simp
    have "tree s' ! (?n - 1 + j) = tree ?s1 ! (?n - 1 + j)" using f par ne by blast
    moreover have "data ?s ! j \<noteq> None" using j(2) False by (simp add: fields)
    ultimately show ?thesis using pos[OF j(1)] by simp
  qed
  have "(write_t ?s + 1) mod ?n < ?n" using n1 by simp
  then show ?thesis
    unfolding tree_inv_def b' using fields tl dl n1 eps mx leaf by simp
qed

lemma tree_inv_update_loop:
  assumes "tree_inv b" and "update_loop_t b ps = Some (Inr b')"
  shows "tree_inv b'"
  using assms
proof (induction ps arbitrary: b)
  case Nil
  then show ?case by simp
next
  case (Cons a ps)
  obtain i e where a: "a = (i, e)" by (cases a)
  let ?s = "sumtree b"
  let ?n = "capacity_t ?s"
  have n1: "1 \<le> ?n" and len: "length (tree ?s) = 2 * ?n - 1" and dl: "length (data ?s) = ?n"
    and wn: "write_t ?s < ?n" and eps: "0 < epsilon b" and mx: "1 \<le> max_priority_t b"
    and pos: "\<And>j. j < ?n \<Longrightarrow> data ?s ! j \<noteq> None \<Longrightarrow> 0 < tree ?s ! (?n - 1 + j)"
    using Cons.prems(1) by (auto simp: tree_inv_def)
  let ?q = "(\<bar>e\<bar> + epsilon b) powr alpha_t b"
  have base: "0 < \<bar>e\<bar> + epsilon b" using eps by linarith
  have pw: "np_pow (\<bar>e\<bar> + epsilon b) (alpha_t b) = Some ?q" using base by (rule np_pow_pos)
  have q: "0 < ?q" using base by simp
  from Cons.prems(2) pw obtain t where
    u: "update i ?q ?s = Some (Inr t)"
    and st: "update_loop_t (b\<lparr>sumtree := t, max_priority_t := max (max_priority_t b) ?q\<rparr>) ps
               = Some (Inr b')"
    by (auto simp: a split: option.splits sum.splits)
  note f = update_frame[OF u]
  have t: "t = ?s\<lparr>tree := tree t\<rparr>" using f by simp
  have fields: "capacity_t t = ?n" "data t = data ?s" "write_t t = write_t ?s"
    by (subst t, simp)+
  have leaf: "0 < tree t ! (?n - 1 + j)" if j: "j < ?n" "data t ! j \<noteq> None" for j
  proof (cases "?n - 1 + j = nat i")
    case True
    then show ?thesis using f q by simp
  next
    case False
    have "nat i \<le> 2 * ?n - 2" using f len by linarith
    then have "(nat i - 1) div 2 < ?n - 1" using f by linarith
    then have "(nat i - 1) div 2 < ?n - 1 + j" by simp
    then have "tree t ! (?n - 1 + j) = tree ?s ! (?n - 1 + j)" using f False by blast
    then show ?thesis using pos[OF j(1)] j(2) by (simp add: fields)
  qed
  have "tree_inv (b\<lparr>sumtree := t, max_priority_t := max (max_priority_t b) ?q\<rparr>)"
    unfolding tree_inv_def using fields f len dl n1 wn eps mx leaf by (simp add: le_max_iff_disj)
  from Cons.IH[OF this st] show ?case .
qed

lemma tree_reachable_inv: "tree_reachable b \<Longrightarrow> tree_inv b"
proof (induction rule: tree_reachable.induct)
  case (tree_init n a b)
  then show ?case by (rule tree_inv_init)
next
  case (tree_push b d b')
  then show ?case by (auto intro: tree_inv_push)
next
  case (tree_update b indices errs b')
  then show ?case
    using tree_inv_update_loop[of b "zip indices errs" b']
    by (simp add: PERBufferSumTree_update_priorities_def)
qed

subsection \<open>Pushes and the running maximum\<close>

lemma flat_push_returns:
  assumes "0 < capacity b"
  shows "\<exists>b'. PrioritizedReplayBuffer_push b batch = Inr b'"
  using assms by (simp add: PrioritizedReplayBuffer_push_def ReplayBuffer_push_def Let_def)

text \<open>
  Claim C10, amended. In both prioritized variants \<open>max_priority\<close> starts at 1, is kept
  by \<open>push\<close> and never lowered by \<open>update_priorities\<close>, so it is at least 1 in every
  buffer reached from a fresh one by pushes and priority updates. A flat push into a
  buffer of positive capacity returns and gives every slot it writes the priority
  \<open>max_priority\<close>; a tree push into a reachable buffer of capacity at least 2 returns
  and gives the leaf it writes the priority \<open>max_priority\<close>. In a reachable flat buffer
  with at least one occupied slot the sum of \<open>priority ** alpha\<close> over the occupied slots
  is positive and the probabilities are the normalised powers.
\<close>

theorem max_priority_at_least_one:
  "max_priority (PrioritizedReplayBuffer_init c a z) = 1 \<and>
   (0 < capacity b \<longrightarrow> (\<exists>b'. PrioritizedReplayBuffer_push b batch = Inr b')) \<and>
   (PrioritizedReplayBuffer_push b batch = Inr b' \<longrightarrow> max_priority b' = max_priority b) \<and>
   max_priority b \<le> max_priority (snd (PrioritizedReplayBuffer_update_priorities b indices errs)) \<and>
   (flat_reachable b \<longrightarrow>
      1 \<le> max_priority b \<and>
      (PrioritizedReplayBuffer_push b batch = Inr b' \<longrightarrow>
         list_all (\<lambda>i. priorities b' ! i = max_priority b \<and> 1 \<le> priorities b' ! i)
           (push_indices (length batch) (position b) (capacity b))) \<and>
      (0 < size_b b \<longrightarrow>
         0 < sum_list (map the (powers b)) \<and>
         PrioritizedReplayBuffer_probs b =
           Some (map (\<lambda>p. p / sum_list (map the (powers b))) (map the (powers b))))) \<and>
   (PERBufferSumTree_init n a = Inr t \<longrightarrow> max_priority_t t = 1) \<and>
   (tree_reachable t \<longrightarrow>
      1 \<le> max_priority_t t \<and>
      (2 \<le> capacity_t (sumtree t) \<longrightarrow>
         (\<exists>t'. PERBufferSumTree_push t d = Some (Inr t') \<and>
            max_priority_t t' = max_priority_t t \<and>
            tree (sumtree t') ! (write_t (sumtree t) + capacity_t (sumtree t) - 1) = max_priority_t t \<and>
            1 \<le> tree (sumtree t') ! (write_t (sumtree t) + capacity_t (sumtree t) - 1)))) \<and>
   (PERBufferSumTree_update_priorities t indices errs = Some (Inr t'') \<longrightarrow>
      max_priority_t t \<le> max_priority_t t'')"
proof -
  have f1: "max_priority (PrioritizedReplayBuffer_init c a z) = 1"
    by (simp add: PrioritizedReplayBuffer_init_def)
  have f2: "max_priority b' = max_priority b" if "PrioritizedReplayBuffer_push b batch = Inr b'"
    using flat_push_result[OF that] by simp
  have f3: "max_priority b \<le> max_priority (snd (PrioritizedReplayBuffer_update_priorities b indices errs))"
  proof -
    have "max_priority b \<le> max_priority (snd (update_loop b ps))" for ps
    proof (induction ps arbitrary: b)
      case Nil
      then show ?case by simp
    next
      case (Cons x ps)
      obtain i e where x: "x = (i, e)" by (cases x)
      show ?case
      proof (cases "np_index (length (priorities b)) i")
        case None
        then show ?thesis by (simp add: x Let_def)
      next
        case (Some j)
        let ?b = "b\<lparr>priorities := (priorities b)[j := min (\<bar>e\<bar> + 1 / 1000000) 1],
                     max_priority := max (max_priority b) (min (\<bar>e\<bar> + 1 / 1000000) 1)\<rparr>"
        have "max_priority b \<le> max_priority ?b" by simp
        also have "\<dots> \<le> max_priority (snd (update_loop ?b ps))" by (rule Cons.IH)
        finally show ?thesis using Some by (simp add: x Let_def)
      qed
    qed
    then show ?thesis by (simp add: PrioritizedReplayBuffer_update_priorities_def)
  qed
  have f4: "1 \<le> max_priority b" if "flat_reachable b"
    using flat_reachable_inv[OF that] by (simp add: flat_inv_def)
  have f5: "list_all (\<lambda>i. priorities b' ! i = max_priority b \<and> 1 \<le> priorities b' ! i)
           (push_indices (length batch) (position b) (capacity b))"
    if r: "flat_reachable b" and p: "PrioritizedReplayBuffer_push b batch = Inr b'"
  proof -
    let ?idx = "push_indices (length batch) (position b) (capacity b)"
    note inv = flat_reachable_inv[OF r]
    note pr = flat_push_result[OF p]
    have len: "length (priorities b) = capacity b" using inv by (simp add: flat_inv_def)
    have a: "\<And>i. i < capacity b \<Longrightarrow>
       priorities b' ! i = (if i \<in> set ?idx then max_priority b else priorities b ! i)"
      using assign_const[of "replicate (length batch) (max_priority b)" ?idx "max_priority b" "priorities b"] pr
      by (simp_all add: push_indices_def list_all_iff len)
    have "i < capacity b" if "i \<in> set ?idx" for i
      using that pr by (auto simp: push_indices_def)
    then show ?thesis using a f4[OF r] by (auto simp: list_all_iff)
  qed
  have f6: "0 < sum_list (map the (powers b)) \<and>
         PrioritizedReplayBuffer_probs b =
           Some (map (\<lambda>p. p / sum_list (map the (powers b))) (map the (powers b)))"
    if "flat_reachable b" "0 < size_b b"
    using flat_inv_probs[OF flat_reachable_inv[OF that(1)] that(2)] .
  have t1: "max_priority_t t = 1" if "PERBufferSumTree_init n a = Inr t"
    using that by (auto simp: PERBufferSumTree_init_def split: sum.splits)
  have t2: "\<exists>t'. PERBufferSumTree_push t d = Some (Inr t') \<and>
            max_priority_t t' = max_priority_t t \<and>
            tree (sumtree t') ! (write_t (sumtree t) + capacity_t (sumtree t) - 1) = max_priority_t t \<and>
            1 \<le> tree (sumtree t') ! (write_t (sumtree t) + capacity_t (sumtree t) - 1)"
    if r: "tree_reachable t" and c: "2 \<le> capacity_t (sumtree t)"
  proof -
    from tree_push_returns[OF tree_reachable_inv[OF r] c, of d] obtain t' where
      p: "PERBufferSumTree_push t d = Some (Inr t')" by blast
    from tree_push_result[OF p] tree_reachable_max[OF r] p show ?thesis by simp
  qed
  have t3: "max_priority_t t \<le> max_priority_t t''"
    if "PERBufferSumTree_update_priorities t indices errs = Some (Inr t'')"
    using update_loop_t_max[of t "zip indices errs" t''] that
    by (simp add: PERBufferSumTree_update_priorities_def)
  show ?thesis
    using f1 flat_push_returns[of b batch] f2 f3 f4 f5 f6 t1 t2 t3 tree_reachable_max[of t]
    by blast
qed

text \<open>The theorem on a flat buffer and on a tree of capacity 2, after one push each.\<close>

theorem max_priority_at_least_one_witness:
  "PrioritizedReplayBuffer_push (PrioritizedReplayBuffer_init 2 1 (0 :: nat)) [7] =
     Inr \<lparr>capacity = 2, slots = [7, 0], position = 1, size_b = 1,
          alpha = 1, priorities = [1, 0], max_priority = 1\<rparr> \<and>
   flat_reachable \<lparr>capacity = 2, slots = [7, 0 :: nat], position = 1, size_b = 1,
          alpha = 1, priorities = [1, 0], max_priority = 1\<rparr> \<and>
   1 \<le> max_priority \<lparr>capacity = 2, slots = [7, 0 :: nat], position = 1, size_b = 1,
          alpha = 1, priorities = [1, 0], max_priority = 1\<rparr> \<and>
   0 < sum_list (map the (powers \<lparr>capacity = 2, slots = [7, 0 :: nat], position = 1, size_b = 1,
          alpha = 1, priorities = [1, 0], max_priority = 1\<rparr>)) \<and>
   PERBufferSumTree_init 2 1 =
     Inr \<lparr>sumtree = \<lparr>capacity_t = 2, tree = [0, 0, 0], data = [None, None :: nat option],
                      write_t = 0, n_entries = 0\<rparr>,
          alpha_t = 1, epsilon = 1 / 1000000, max_priority_t = 1\<rparr> \<and>
   tree_reachable \<lparr>sumtree = \<lparr>capacity_t = 2, tree = [0, 0, 0], data = [None, None :: nat option],
                      write_t = 0, n_entries = 0\<rparr>,
          alpha_t = 1, epsilon = 1 / 1000000, max_priority_t = 1\<rparr> \<and>
   PERBufferSumTree_push
     \<lparr>sumtree = \<lparr>capacity_t = 2, tree = [0, 0, 0], data = [None, None :: nat option],
                 write_t = 0, n_entries = 0\<rparr>,
      alpha_t = 1, epsilon = 1 / 1000000, max_priority_t = 1\<rparr> 7 =
     Some (Inr \<lparr>sumtree = \<lparr>capacity_t = 2, tree = [1, 1, 0], data = [Some 7, None],
                              write_t = 1, n_entries = 1\<rparr>,
                alpha_t = 1, epsilon = 1 / 1000000, max_priority_t = 1\<rparr>) \<and>
   1 \<le> [1, 1, 0 :: real] ! (0 + 2 - 1)"
proof -
  let ?b0 = "PrioritizedReplayBuffer_init 2 1 (0 :: nat)"
  let ?b1 = "\<lparr>capacity = 2, slots = [7, 0 :: nat], position = 1, size_b = 1,
          alpha = 1, priorities = [1, 0], max_priority = 1\<rparr>"
  let ?t0 = "\<lparr>sumtree = \<lparr>capacity_t = 2, tree = [0, 0, 0], data = [None, None :: nat option],
                      write_t = 0, n_entries = 0\<rparr>,
          alpha_t = 1, epsilon = 1 / 1000000, max_priority_t = 1\<rparr>"
  let ?t1 = "\<lparr>sumtree = \<lparr>capacity_t = 2, tree = [1, 1, 0], data = [Some (7 :: nat), None],
                              write_t = 1, n_entries = 1\<rparr>,
                alpha_t = 1, epsilon = 1 / 1000000, max_priority_t = 1\<rparr>"
  have i0: "?b0 = \<lparr>capacity = 2, slots = [0, 0], position = 0, size_b = 0,
          alpha = 1, priorities = [0, 0], max_priority = 1\<rparr>"
    by (simp add: PrioritizedReplayBuffer_init_def numeral_eq_Suc)
  have p: "PrioritizedReplayBuffer_push ?b0 [7] = Inr ?b1"
    by (simp add: i0 PrioritizedReplayBuffer_push_def ReplayBuffer_push_def push_indices_def
        assign_def Let_def)
  have r: "flat_reachable ?b1" by (rule flat_push[OF flat_init p])
  have ti: "PERBufferSumTree_init 2 1 = Inr ?t0"
    by (simp add: PERBufferSumTree_init_def SumTree_init_def numeral_eq_Suc)
  have tr: "tree_reachable ?t0" by (rule tree_init[OF ti])
  have tp: "PERBufferSumTree_push ?t0 7 = Some (Inr ?t1)"
    by (simp add: PERBufferSumTree_push_def add_def update_def np_index_def propagate.simps Let_def)
  note th = max_priority_at_least_one[where b = ?b1 and t = ?t0 and c = 2 and a = 1 and z = "0 :: nat"
      and batch = "[]" and b' = ?b1 and indices = "[]" and errs = "[]" and n = 2 and d = 7 and t'' = ?t0]
  note a5 = th[THEN conjunct2, THEN conjunct2, THEN conjunct2, THEN conjunct2, THEN conjunct1]
  note a7 = th[THEN conjunct2, THEN conjunct2, THEN conjunct2, THEN conjunct2, THEN conjunct2,
      THEN conjunct2, THEN conjunct1]
  have "1 \<le> max_priority ?b1" using a5 r by blast
  moreover have "0 < sum_list (map the (powers ?b1))" using a5 r by simp
  moreover have "\<exists>t'. PERBufferSumTree_push ?t0 7 = Some (Inr t') \<and>
      1 \<le> tree (sumtree t') ! (write_t (sumtree ?t0) + capacity_t (sumtree ?t0) - 1)"
    using a7 tr by auto
  then have "1 \<le> [1, 1, 0 :: real] ! (0 + 2 - 1)" using tp by simp
  ultimately show ?thesis using p r ti tr tp by blast
qed

text \<open>
  Claim C10 as written, at two inputs. A fresh flat buffer is reachable, holds no
  occupied slot and has the total 0, so the zero-total branch of \<open>sample\<close> is the one
  taken there. On a fresh tree buffer of capacity 1 the leaf is the root, the walk to
  the parents never ends and \<open>push\<close> does not return: it assigns no priority.
\<close>

theorem zero_total_and_capacity_one_counterexample:
  "flat_reachable (PrioritizedReplayBuffer_init 4 (6 / 10) (0 :: nat)) \<and>
   size_b (PrioritizedReplayBuffer_init 4 (6 / 10) (0 :: nat)) = 0 \<and>
   sum_list (map the (powers (PrioritizedReplayBuffer_init 4 (6 / 10) (0 :: nat)))) = 0 \<and>
   PrioritizedReplayBuffer_probs (PrioritizedReplayBuffer_init 4 (6 / 10) (0 :: nat)) = Some [] \<and>
   PERBufferSumTree_init 1 (6 / 10) =
     Inr \<lparr>sumtree = \<lparr>capacity_t = 1, tree = [0], data = [None :: nat option],
                      write_t = 0, n_entries = 0\<rparr>,
          alpha_t = 6 / 10, epsilon = 1 / 1000000, max_priority_t = 1\<rparr> \<and>
   tree_reachable \<lparr>sumtree = \<lparr>capacity_t = 1, tree = [0], data = [None :: nat option],
                      write_t = 0, n_entries = 0\<rparr>,
          alpha_t = 6 / 10, epsilon = 1 / 1000000, max_priority_t = 1\<rparr> \<and>
   PERBufferSumTree_push
     \<lparr>sumtree = \<lparr>capacity_t = 1, tree = [0], data = [None :: nat option],
                 write_t = 0, n_entries = 0\<rparr>,
      alpha_t = 6 / 10, epsilon = 1 / 1000000, max_priority_t = 1\<rparr> 7 = None"
proof -
  let ?t = "\<lparr>sumtree = \<lparr>capacity_t = 1, tree = [0], data = [None :: nat option],
                      write_t = 0, n_entries = 0\<rparr>,
          alpha_t = 6 / 10, epsilon = 1 / 1000000, max_priority_t = 1\<rparr>"
  have ti: "PERBufferSumTree_init 1 (6 / 10) = Inr ?t"
    by (simp add: PERBufferSumTree_init_def SumTree_init_def)
  have tr: "tree_reachable ?t" by (rule tree_init[OF ti])
  have tp: "PERBufferSumTree_push ?t 7 = None"
    by (rule tree_push_diverges[OF tree_reachable_inv[OF tr]]) simp
  have fl: "flat_reachable (PrioritizedReplayBuffer_init 4 (6 / 10) (0 :: nat))" by (rule flat_init)
  have pw: "powers (PrioritizedReplayBuffer_init 4 (6 / 10) (0 :: nat)) = []"
    by (simp add: powers_def PrioritizedReplayBuffer_init_def)
  show ?thesis
    using ti tr tp fl pw
    by (simp add: PrioritizedReplayBuffer_probs_def PrioritizedReplayBuffer_init_def)
qed

subsection \<open>The zero total\<close>

text \<open>
  Claim C8 at a buffer of capacity 4 with three occupied slots, all of priority 0. The
  claim: \<open>sample\<close> does not fail, it draws uniformly over the occupied slots. The code
  computes the uniform probabilities \<open>1/3\<close>, then calls \<open>randint\<close> with the keywords
  \<open>p\<close> and \<open>replace\<close>: the call raises \<open>TypeError\<close>, no index is drawn and \<open>sample(2, 0.4)\<close>
  fails. So it does on a fresh buffer, whose total is zero as well.
\<close>

theorem zero_mass_sample_raises:
  "sum_list (map the (powers
     \<lparr>capacity = 4, slots = [10, 11, 12, 0 :: nat], position = 3, size_b = 3,
      alpha = 6 / 10, priorities = [0, 0, 0, 0], max_priority = 1\<rparr>)) = 0 \<and>
   PrioritizedReplayBuffer_probs
     \<lparr>capacity = 4, slots = [10, 11, 12, 0 :: nat], position = 3, size_b = 3,
      alpha = 6 / 10, priorities = [0, 0, 0, 0], max_priority = 1\<rparr> = Some [1 / 3, 1 / 3, 1 / 3] \<and>
   PrioritizedReplayBuffer_draw
     \<lparr>capacity = 4, slots = [10, 11, 12, 0 :: nat], position = 3, size_b = 3,
      alpha = 6 / 10, priorities = [0, 0, 0, 0], max_priority = 1\<rparr> 2 (Inl TypeError) \<and>
   \<not> PrioritizedReplayBuffer_draw
     \<lparr>capacity = 4, slots = [10, 11, 12, 0 :: nat], position = 3, size_b = 3,
      alpha = 6 / 10, priorities = [0, 0, 0, 0], max_priority = 1\<rparr> 2 (Inr [1, 0]) \<and>
   PrioritizedReplayBuffer_sample
     \<lparr>capacity = 4, slots = [10, 11, 12, 0 :: nat], position = 3, size_b = 3,
      alpha = 6 / 10, priorities = [0, 0, 0, 0], max_priority = 1\<rparr> (4 / 10) (Inl TypeError) =
     Inl TypeError \<and>
   PrioritizedReplayBuffer_draw (PrioritizedReplayBuffer_init 4 (6 / 10) (0 :: nat)) 1
     (Inl TypeError) \<and>
   PrioritizedReplayBuffer_sample (PrioritizedReplayBuffer_init 4 (6 / 10) (0 :: nat)) (4 / 10)
     (Inl TypeError) = Inl TypeError"
proof -
  let ?b = "\<lparr>capacity = 4, slots = [10, 11, 12, 0 :: nat], position = 3, size_b = 3,
      alpha = 6 / 10, priorities = [0, 0, 0, 0 :: real], max_priority = 1\<rparr>"
  have t3: "take 3 [0, 0, 0, 0 :: real] = [0, 0, 0]" by (simp add: numeral_eq_Suc)
  have pw: "powers ?b = [Some 0, Some 0, Some 0]"
    by (simp add: powers_def np_pow_def t3)
  have pr: "PrioritizedReplayBuffer_probs ?b = Some [1 / 3, 1 / 3, 1 / 3]"
    unfolding PrioritizedReplayBuffer_probs_def pw by simp
  have s: "sum_list (map the (powers ?b)) = 0" unfolding pw by simp
  show ?thesis
    using pr s
    by (simp add: weighted_draw_raises PrioritizedReplayBuffer_sample_def)
qed

subsection \<open>Sampled priorities\<close>

lemma retrieve_leaf:
  assumes "odd (length t)" and "idx < length t"
  shows "retrieve t idx s < length t \<and> length t \<le> 2 * retrieve t idx s + 1"
  using assms
proof (induction t idx s rule: retrieve.induct)
  case (1 t idx s)
  show ?case
  proof (cases "length t \<le> 2 * idx + 1")
    case True
    then show ?thesis using "1.prems" by (simp add: retrieve.simps[of t idx s])
  next
    case False
    then have "2 * idx + 1 < length t" by simp
    moreover have "2 * idx + 2 \<noteq> length t" using "1.prems"(1) by presburger
    ultimately have r: "2 * idx + 1 < length t" "2 * idx + 1 + 1 < length t" by simp_all
    show ?thesis
    proof (cases "s \<le> t ! (2 * idx + 1)")
      case True
      from "1.IH"(1)[OF refl refl False True "1.prems"(1) r(1)] show ?thesis
        using False True by (simp add: retrieve.simps[of t idx s])
    next
      case b: False
      from "1.IH"(2)[OF refl refl False b "1.prems"(1) r(2)] show ?thesis
        using False b by (simp add: retrieve.simps[of t idx s])
    qed
  qed
qed

lemma get_positive:
  assumes inv: "tree_inv b" and g: "get (sumtree b) x = Inr (idx, p, Some d)"
  shows "0 < p"
proof -
  let ?s = "sumtree b"
  let ?n = "capacity_t ?s"
  let ?r = "retrieve (tree ?s) 0 x"
  have n: "1 \<le> ?n" and len: "length (tree ?s) = 2 * ?n - 1" and dl: "length (data ?s) = ?n"
    and pos: "\<And>j. j < ?n \<Longrightarrow> data ?s ! j \<noteq> None \<Longrightarrow> 0 < tree ?s ! (?n - 1 + j)"
    using inv by (auto simp: tree_inv_def)
  have odd: "odd (length (tree ?s))" using n len by presburger
  have "0 < length (tree ?s)" using n len by simp
  from retrieve_leaf[OF odd this, of x] have r: "?r < 2 * ?n - 1" "?n - 1 \<le> ?r"
    using len n by auto
  have ix: "np_index ?n (int ?r - int ?n + 1) = Some (?r - (?n - 1))"
    using r n by (auto simp: np_index_def)
  from g ix have e: "idx = ?r" "p = tree ?s ! ?r" "data ?s ! (?r - (?n - 1)) = Some d"
    by (auto simp: get_def Let_def dl split: if_splits)
  have "?r - (?n - 1) < ?n" using r n by auto
  from pos[OF this] e(3) have "0 < tree ?s ! (?n - 1 + (?r - (?n - 1)))" by simp
  then show ?thesis using r(2) e(2) by simp
qed

lemma collect_positive:
  assumes "tree_inv b" and "collect (sumtree b) n draws acc = Some (Inr es)"
    and "list_all (\<lambda>(i, p, d). 0 < p) acc"
  shows "list_all (\<lambda>(i, p, d). 0 < p) es"
  using assms(2,3)
proof (induction draws arbitrary: acc)
  case Nil
  then show ?case by (auto split: if_splits)
next
  case (Cons x xs)
  show ?case
  proof (cases "length acc < n")
    case False
    then show ?thesis using Cons.prems by auto
  next
    case True
    then obtain idx p d where g: "get (sumtree b) x = Inr (idx, p, d)"
      using Cons.prems(1) by (cases "get (sumtree b) x") auto
    show ?thesis
    proof (cases d)
      case None
      then show ?thesis using Cons.IH[of acc] Cons.prems True g by simp
    next
      case (Some v)
      have "list_all (\<lambda>(i, p, d). 0 < p) (acc @ [(idx, p, v)])"
        using Cons.prems(2) get_positive[OF assms(1) g[unfolded Some]] by simp
      then show ?thesis using Cons.IH[of "acc @ [(idx, p, v)]"] Cons.prems(1) True g Some by simp
    qed
  qed
qed

lemma flat_probs_positive:
  assumes inv: "flat_inv b" and pr: "PrioritizedReplayBuffer_probs b = Some probs"
  shows "length probs = size_b b \<and> list_all (\<lambda>p. 0 < p) probs"
proof (cases "size_b b = 0")
  case True
  then have "powers b = []" by (simp add: powers_def)
  then show ?thesis using pr True by (simp add: PrioritizedReplayBuffer_probs_def)
next
  case False
  let ?pr = "take (size_b b) (priorities b)"
  let ?S = "sum_list (map the (powers b))"
  have len: "length ?pr = size_b b" using inv by (simp add: flat_inv_def)
  have ppos: "\<And>p. p \<in> set ?pr \<Longrightarrow> 0 < p"
    using inv by (auto simp: flat_inv_def in_set_conv_nth)
  have pw: "powers b = map (\<lambda>p. Some (p powr alpha b)) ?pr"
    unfolding powers_def using ppos by (intro map_cong) (auto simp: np_pow_def)
  have the: "map the (powers b) = map (\<lambda>p. p powr alpha b) ?pr" by (simp add: pw comp_def)
  from flat_inv_probs[OF inv] False pr have S: "0 < ?S"
    and probs: "probs = map (\<lambda>p. p / ?S) (map the (powers b))" by auto
  have "length probs = size_b b" unfolding probs the using len by simp
  moreover have "list_all (\<lambda>p. 0 < p) probs"
  proof -
    have S': "0 < sum_list (map (\<lambda>p. p powr alpha b) ?pr)" using S by (simp only: the)
    have "0 < p powr alpha b / sum_list (map (\<lambda>p. p powr alpha b) ?pr)" if "p \<in> set ?pr" for p
      using ppos[OF that] S' by (intro divide_pos_pos) auto
    then show ?thesis unfolding probs the by (auto simp: list_all_iff)
  qed
  ultimately show ?thesis by simp
qed

lemma np_take_result:
  assumes "np_take arr xs = Some ps"
  shows "ps = map (\<lambda>x. arr ! the (np_index (length arr) x)) xs \<and>
         list_all (\<lambda>x. the (np_index (length arr) x) < length arr) xs"
proof -
  have a: "list_all (\<lambda>i. np_index (length arr) i \<noteq> None) xs"
    and ps: "ps = map (\<lambda>x. arr ! the (np_index (length arr) x)) xs"
    using assms by (auto simp: np_take_def split: if_splits)
  have "the (np_index (length arr) x) < length arr" if "np_index (length arr) x \<noteq> None" for x
    using that by (auto simp: np_index_def split: if_splits)
  then show ?thesis using a ps by (auto simp: list_all_iff)
qed

lemma near_one:
  fixes m e :: real
  assumes "0 < m" and "0 < e"
  shows "m / (m + e) \<le> 1 \<and> 1 - e / m \<le> m / (m + e)"
proof -
  have d: "0 < m + e" using assms by simp
  have "m / (m + e) = 1 - e / (m + e)" using d by (simp add: field_simps)
  moreover have "e / (m + e) \<le> e / m" using assms by (intro divide_left_mono) auto
  moreover have "0 \<le> e / (m + e)" using assms by simp
  ultimately show ?thesis by linarith
qed

end
